theory Spec2Isabelle
  imports Complex_Main "HOL-Library.AList"
begin

section \<open>Shared data: JSON values and command envelopes\<close>

text \<open>
  Both sides of the bridge exchange one JSON object per text frame. A parsed JSON value is
  modelled as a datatype; an object is its list of key/value pairs in key order
  (\<open>JSON.parse\<close> yields each key once). JavaScript numbers are modelled as reals: the
  rounding of IEEE doubles, and the infinite value \<open>JSON.parse\<close> gives a literal beyond
  their range, are not part of this development.
\<close>

datatype json =
    JNull
  | JBool bool
  | JNum real
  | JStr string
  | JArr "json list"
  | JObj "(string \<times> json) list"

text \<open>
  \<open>interface MCPCommand { action: string; requestId?: string; ... }\<close>: the action tag, the
  optional correlation identifier, and the remaining action-specific fields.
\<close>

record mcp_command =
  action :: string
  requestId :: "string option"
  args :: "(string \<times> json) list"

section \<open>Control plane: \<open>BridgeServer\<close> (src/src/bridge-server.ts)\<close>

subsection \<open>Decimal rendering of the request counter\<close>

text \<open>The template literal \<open>`req_${++this.requestId}`\<close> renders the counter in decimal.\<close>

definition digit_char :: "nat \<Rightarrow> char" where
  "digit_char d = ''0123456789'' ! d"

fun show_nat :: "nat \<Rightarrow> string" where
  "show_nat n = (if n < 10 then [digit_char n] else show_nat (n div 10) @ [digit_char (n mod 10)])"

declare show_nat.simps [simp del]

definition req_id :: "nat \<Rightarrow> string" where
  "req_id n = ''req_'' @ show_nat n"

subsection \<open>State\<close>

datatype ready_state = CONNECTING | OPEN | CLOSING | CLOSED

text \<open>
  A promise handed to a caller of \<open>sendCommand\<close> is named by a number. Every call of a
  promise's \<open>resolve\<close> or \<open>reject\<close> function is appended to the log \<open>settled\<close>; the state
  of a promise is the first entry logged for it (a promise settles once, later calls are
  ignored by the JavaScript runtime).
\<close>

datatype settlement = Fulfilled json | Rejected string

text \<open>
  \<open>interface PendingRequest { resolve; reject; timeout }\<close>: \<open>promise\<close> names the promise
  whose \<open>resolve\<close> and \<open>reject\<close> the entry holds, \<open>timeout\<close> is the timer handle.
\<close>

record pending_request =
  promise :: nat
  timeout :: nat

text \<open>What the callback passed to \<open>setTimeout\<close> in \<open>sendCommand\<close> has captured.\<close>

record timer_closure =
  t_requestId :: string
  t_command :: mcp_command
  t_promise :: nat

text \<open>
  The fields of the class. \<open>pendingRequests\<close> is a JavaScript \<open>Map\<close>, which iterates in
  insertion order: an association list with \<open>AList.update\<close> (set), \<open>map_of\<close> (get) and
  \<open>AList.delete\<close> (delete). \<open>requestId_ctr\<close> is the field \<open>requestId\<close> of the class (the
  envelope field has that name already); it is a natural number, the counter never reaches
  the range where a double stops counting. \<open>timers\<close> are the armed timers of the event loop,
  \<open>outbox\<close> the frames handed to \<open>client.send\<close>. The status fields \<open>listening\<close>,
  \<open>lastError\<close>, \<open>startupError\<close>, \<open>port\<close> take no part in correlation and are left out.
\<close>

record bridge_server =
  wss :: bool
  client :: "ready_state option"
  pendingRequests :: "(string \<times> pending_request) list"
  requestId_ctr :: nat
  lastSceneState :: json
  timers :: "(nat \<times> timer_closure) list"
  settled :: "(nat \<times> settlement) list"
  outbox :: "mcp_command list"

definition init_server :: bridge_server where
  "init_server = \<lparr> wss = True, client = None, pendingRequests = [], requestId_ctr = 0,
     lastSceneState = JNull, timers = [], settled = [], outbox = [] \<rparr>"

definition promise_state :: "bridge_server \<Rightarrow> nat \<Rightarrow> settlement option" where
  "promise_state s p = map_of (settled s) p"

definition resolve :: "nat \<Rightarrow> json \<Rightarrow> bridge_server \<Rightarrow> bridge_server" where
  "resolve p v s = s\<lparr>settled := settled s @ [(p, Fulfilled v)]\<rparr>"

definition reject :: "nat \<Rightarrow> string \<Rightarrow> bridge_server \<Rightarrow> bridge_server" where
  "reject p e s = s\<lparr>settled := settled s @ [(p, Rejected e)]\<rparr>"

definition clearTimeout :: "nat \<Rightarrow> bridge_server \<Rightarrow> bridge_server" where
  "clearTimeout t s = s\<lparr>timers := AList.delete t (timers s)\<rparr>"

subsection \<open>Operations\<close>

definition isConnected :: "bridge_server \<Rightarrow> bool" where
  "isConnected s \<longleftrightarrow> client s \<noteq> None \<and> client s = Some OPEN"

text \<open>The \<open>'connection'\<close> handler of the server socket and the \<open>'close'\<close> handler of a client.\<close>

definition on_connection :: "bridge_server \<Rightarrow> bridge_server" where
  "on_connection s = s\<lparr>client := Some OPEN\<rparr>"

definition on_ws_close :: "bridge_server \<Rightarrow> bridge_server" where
  "on_ws_close s = s\<lparr>client := None\<rparr>"

text \<open>The \<open>readyState\<close> of the held socket changes underneath the class.\<close>

definition on_ready_state :: "ready_state \<Rightarrow> bridge_server \<Rightarrow> bridge_server" where
  "on_ready_state r s = s\<lparr>client := map_option (\<lambda>_. r) (client s)\<rparr>"

text \<open>
  \<open>typeof message === 'object' && message !== null && key in message\<close>: arrays are objects
  too, but carry neither of the two keys tested.
\<close>

fun has_key :: "string \<Rightarrow> json \<Rightarrow> bool" where
  "has_key k (JObj kvs) = (k \<in> set (map fst kvs))"
| "has_key k _ = False"

fun get_key :: "string \<Rightarrow> json \<Rightarrow> json option" where
  "get_key k (JObj kvs) = map_of kvs k"
| "get_key k _ = None"

text \<open>\<open>const { requestId, ...data } = message\<close>: the object without that key.\<close>

fun rest_without :: "string \<Rightarrow> json \<Rightarrow> json" where
  "rest_without k (JObj kvs) = JObj (filter (\<lambda>kv. fst kv \<noteq> k) kvs)"
| "rest_without k j = j"

text \<open>\<open>Map.get\<close> with a key taken from the message: only a string can match a string key.\<close>

fun pending_get :: "bridge_server \<Rightarrow> json option \<Rightarrow> (string \<times> pending_request) option" where
  "pending_get s (Some (JStr r)) = map_option (\<lambda>p. (r, p)) (map_of (pendingRequests s) r)"
| "pending_get s _ = None"

definition handleMessage :: "json \<Rightarrow> bridge_server \<Rightarrow> bridge_server" where
  "handleMessage message s =
    (let s1 = (if has_key ''data'' message then s\<lparr>lastSceneState := message\<rparr> else s)
     in if has_key ''requestId'' message then
          (case pending_get s1 (get_key ''requestId'' message) of
             None \<Rightarrow> s1
           | Some (r, pending) \<Rightarrow>
               resolve (promise pending) (rest_without ''requestId'' message)
                 ((clearTimeout (timeout pending) s1)
                     \<lparr>pendingRequests := AList.delete r (pendingRequests s1)\<rparr>))
        else s1)"

text \<open>
  \<open>sendCommand\<close>. The second argument is what \<open>JSON.stringify\<close>/\<open>client.send\<close> does with
  the frame: \<open>None\<close> when it is handed over, \<open>Some e\<close> when the call throws an error with
  message \<open>e\<close>. The result is \<open>Inl e\<close> when the function throws before a promise exists,
  and \<open>Inr p\<close> for the promise returned.
\<close>

definition sendCommand ::
  "mcp_command \<Rightarrow> string option \<Rightarrow> bridge_server \<Rightarrow> (string + nat) \<times> bridge_server" where
  "sendCommand command tx s =
    (if \<not> isConnected s then (Inl ''No game client connected'', s)
     else
       let n = requestId_ctr s + 1;
           rid = req_id n;
           s1 = s\<lparr>requestId_ctr := n\<rparr>;
           s2 = s1\<lparr>timers := AList.update n
                   \<lparr>t_requestId = rid, t_command = command, t_promise = n\<rparr> (timers s1)\<rparr>;
           s3 = s2\<lparr>pendingRequests := AList.update rid
                   \<lparr>promise = n, timeout = n\<rparr> (pendingRequests s2)\<rparr>
       in case tx of
            None \<Rightarrow> (Inr n, s3\<lparr>outbox := outbox s3 @ [command\<lparr>requestId := Some rid\<rparr>]\<rparr>)
          | Some e \<Rightarrow>
              (Inr n, reject n e
                 ((clearTimeout n s3)\<lparr>pendingRequests := AList.delete rid (pendingRequests s3)\<rparr>)))"

text \<open>
  The callback armed by \<open>sendCommand\<close>, run by the event loop when the deadline
  \<open>commandTimeout\<close> passes and the timer has not been cleared.
\<close>

definition on_timeout :: "nat \<Rightarrow> bridge_server \<Rightarrow> bridge_server" where
  "on_timeout t s =
    (case map_of (timers s) t of
       None \<Rightarrow> s
     | Some c \<Rightarrow>
         let s1 = s\<lparr>timers := AList.delete t (timers s)\<rparr>;
             s2 = s1\<lparr>pendingRequests := AList.delete (t_requestId c) (pendingRequests s1)\<rparr>
         in if action (t_command c) = ''getFullSceneState'' \<or> action (t_command c) = ''findObjects''
            then resolve (t_promise c) (lastSceneState s2) s2
            else reject (t_promise c) ''Command timeout'' s2)"

text \<open>\<open>close()\<close>: the \<open>forEach\<close> visits the entries in insertion order.\<close>

definition close_entry :: "string \<times> pending_request \<Rightarrow> bridge_server \<Rightarrow> bridge_server" where
  "close_entry kv s = reject (promise (snd kv)) ''Server closed'' (clearTimeout (timeout (snd kv)) s)"

definition close :: "bridge_server \<Rightarrow> bridge_server" where
  "close s =
    (let s1 = s\<lparr>wss := False, client := None\<rparr>;
         s2 = fold close_entry (pendingRequests s1) s1
     in s2\<lparr>pendingRequests := []\<rparr>)"

text \<open>The states the class can be in: any interleaving of the events above.\<close>

inductive reachable :: "bridge_server \<Rightarrow> bool" where
  r_init: "reachable init_server"
| r_connection: "reachable s \<Longrightarrow> reachable (on_connection s)"
| r_ws_close: "reachable s \<Longrightarrow> reachable (on_ws_close s)"
| r_ready_state: "reachable s \<Longrightarrow> reachable (on_ready_state r s)"
| r_message: "reachable s \<Longrightarrow> reachable (handleMessage m s)"
| r_send: "reachable s \<Longrightarrow> reachable (snd (sendCommand c tx s))"
| r_timeout: "reachable s \<Longrightarrow> reachable (on_timeout t s)"
| r_close: "reachable s \<Longrightarrow> reachable (close s)"

subsection \<open>Invariant of the reachable states, and auxiliary notions\<close>

definition digit_val :: "char \<Rightarrow> nat" where
  "digit_val c = of_char c - 48"

definition digits_val :: "string \<Rightarrow> nat" where
  "digits_val cs = foldl (\<lambda>a c. 10 * a + digit_val c) 0 cs"

definition pending_ok :: "bridge_server \<Rightarrow> bool" where
  "pending_ok s \<longleftrightarrow>
     (\<forall>r pe. map_of (pendingRequests s) r = Some pe \<longrightarrow>
        0 < promise pe \<and> promise pe \<le> requestId_ctr s \<and> r = req_id (promise pe) \<and>
        timeout pe = promise pe \<and> promise pe \<notin> fst ` set (settled s) \<and>
        (\<exists>c. map_of (timers s) (promise pe) = Some c \<and> t_requestId c = r \<and>
             t_promise c = promise pe))"

definition timers_ok :: "bridge_server \<Rightarrow> bool" where
  "timers_ok s \<longleftrightarrow>
     (\<forall>t c. map_of (timers s) t = Some c \<longrightarrow>
        map_of (pendingRequests s) (t_requestId c) = Some \<lparr>promise = t_promise c, timeout = t\<rparr>)"

definition settled_ok :: "bridge_server \<Rightarrow> bool" where
  "settled_ok s \<longleftrightarrow>
     distinct (map fst (settled s)) \<and> (\<forall>p \<in> fst ` set (settled s). 0 < p \<and> p \<le> requestId_ctr s)"

definition server_inv :: "bridge_server \<Rightarrow> bool" where
  "server_inv s \<longleftrightarrow>
     distinct (map fst (pendingRequests s)) \<and> distinct (map fst (timers s)) \<and>
     pending_ok s \<and> timers_ok s \<and> settled_ok s"

text \<open>Removing one entry together with its timer and settling its promise.\<close>

definition finish :: "string \<Rightarrow> nat \<Rightarrow> settlement \<Rightarrow> bridge_server \<Rightarrow> bridge_server" where
  "finish r n v s = s\<lparr>timers := AList.delete n (timers s),
      pendingRequests := AList.delete r (pendingRequests s),
      settled := settled s @ [(n, v)]\<rparr>"

text \<open>The state of \<open>sendCommand\<close> after the entry has been registered.\<close>

definition registered :: "mcp_command \<Rightarrow> bridge_server \<Rightarrow> bridge_server" where
  "registered command s =
     (let n = requestId_ctr s + 1 in
      s\<lparr>requestId_ctr := n,
        timers := AList.update n \<lparr>t_requestId = req_id n, t_command = command, t_promise = n\<rparr> (timers s),
        pendingRequests := AList.update (req_id n) \<lparr>promise = n, timeout = n\<rparr> (pendingRequests s)\<rparr>)"

definition carries :: "string \<Rightarrow> json \<Rightarrow> bool" where
  "carries r m \<longleftrightarrow> get_key ''requestId'' m = Some (JStr r)"

definition cmd_move :: mcp_command where
  "cmd_move = \<lparr>action = ''moveObject'', requestId = None, args = [(''name'', JStr ''box'')]\<rparr>"

definition cmd_scene :: mcp_command where
  "cmd_scene = \<lparr>action = ''getFullSceneState'', requestId = None, args = []\<rparr>"

definition one_pending :: bridge_server where
  "one_pending = snd (sendCommand cmd_move None (on_connection init_server))"

definition two_pending :: bridge_server where
  "two_pending = snd (sendCommand cmd_scene None one_pending)"

definition reply :: "string \<Rightarrow> real \<Rightarrow> json" where
  "reply r x = JObj [(''requestId'', JStr r), (''success'', JBool True), (''value'', JNum x)]"

text \<open>A reply to \<open>req_1\<close> that carries scene data.\<close>

definition late_reply :: json where
  "late_reply = JObj [(''requestId'', JStr ''req_1''), (''success'', JBool True),
     (''data'', JArr [JStr ''box''])]"

definition scene_reply :: json where
  "scene_reply = JObj [(''requestId'', JStr ''req_1''), (''success'', JBool True), (''data'', JArr [])]"

section \<open>Runtime side: \<open>MCPBridge\<close> (client bridge, src/unnamed/part_004)\<close>

subsection \<open>The scene graph\<close>

text \<open>
  A \<open>THREE.Object3D\<close> carries a name, a type tag, a local position and scale, a
  visibility flag and, for cameras, the lens parameters. Orientation (\<open>rotation\<close>,
  \<open>quaternion\<close>, the effect of \<open>lookAt\<close>) is not modelled: no statement below depends on
  it, and the handlers that only turn an object leave the modelled state as it is.
\<close>

type_synonym vec3 = "real \<times> real \<times> real"

record object3d =
  name :: string
  otype :: string
  position :: vec3
  scale :: vec3
  visible :: bool
  isCamera :: bool
  isPerspectiveCamera :: bool
  fov :: real
  near :: real
  far :: real

text \<open>
  The graph is a tree: \<open>Object3D.add\<close> takes a node away from its previous parent, so a
  node has one parent at most. \<open>nid\<close> is the identity of the JavaScript object (what
  \<open>===\<close> compares); the name index and the parent links refer to nodes by it.
\<close>

datatype node = Node (nid: nat) (obj: object3d) (children: "node list")

text \<open>All nodes of a subtree, the root first, children left to right: the order of
  \<open>Object3D.traverse\<close> and of \<open>getObjectByProperty\<close>.\<close>

fun nodes :: "node \<Rightarrow> node list" where
  "nodes (Node i ob cs) = Node i ob cs # concat (map nodes cs)"

definition ids :: "node \<Rightarrow> nat set" where
  "ids t = nid ` set (nodes t)"

text \<open>\<open>getObjectByName(name)\<close> is \<open>getObjectByProperty('name', name)\<close>: the first node in
  that order with the given name.\<close>

definition getObjectByName :: "node \<Rightarrow> string \<Rightarrow> node option" where
  "getObjectByName t nm = find (\<lambda>n. name (obj n) = nm) (nodes t)"

text \<open>Changing the object with identity \<open>i\<close> in place.\<close>

fun modify :: "nat \<Rightarrow> (object3d \<Rightarrow> object3d) \<Rightarrow> node \<Rightarrow> node" where
  "modify i f (Node j ob cs) = Node j (if j = i then f ob else ob) (map (modify i f) cs)"

text \<open>\<open>parent.remove(child)\<close>: the child with identity \<open>i\<close> leaves the child list.\<close>

fun detach :: "nat \<Rightarrow> node \<Rightarrow> node" where
  "detach i (Node j ob cs) = Node j ob (map (detach i) (filter (\<lambda>c. nid c \<noteq> i) cs))"

text \<open>\<open>parent.add(child)\<close> for a child that has no parent: it becomes the last child of
  the node with identity \<open>p\<close>.\<close>

fun attach :: "nat \<Rightarrow> node \<Rightarrow> node \<Rightarrow> node" where
  "attach p c (Node j ob cs) = Node j ob (map (attach p c) cs @ (if j = p then [c] else []))"

text \<open>
  \<open>Object3D.clone()\<close> copies the properties of the node and clones the children
  recursively; every copy is a new object. The copies take the identities \<open>k\<close>,
  \<open>k + 1\<close>, ... in the order of \<open>nodes\<close>.
\<close>

fun clone_from :: "nat \<Rightarrow> node \<Rightarrow> node"
  and clone_list :: "nat \<Rightarrow> node list \<Rightarrow> node list" where
  "clone_from k (Node j ob cs) = Node k ob (clone_list (Suc k) cs)"
| "clone_list k [] = []"
| "clone_list k (c # cs) = clone_from k c # clone_list (k + length (nodes c)) cs"

subsection \<open>State of the bridge\<close>

text \<open>\<open>interface CameraTween\<close>; \<open>tw_from\<close> and \<open>tw_to\<close> are its fields \<open>from\<close> and \<open>to\<close>.\<close>

record camera_tween =
  startTime :: real
  duration :: real
  tw_from :: vec3
  tw_to :: vec3
  fromLookAt :: "vec3 option"
  toLookAt :: "vec3 option"
  fromFov :: "real option"
  toFov :: "real option"
  fromNear :: "real option"
  toNear :: "real option"
  fromFar :: "real option"
  toFar :: "real option"

text \<open>
  The fields of \<open>MCPBridge\<close>. \<open>scene\<close> is the tree under the scene root; \<open>detached\<close>
  holds the subtrees that were taken out of the graph, which the name index may still
  refer to. \<open>next_id\<close> is the next unused object identity. \<open>objects\<close> and
  \<open>rotatingObjects\<close> are JavaScript \<open>Map\<close>s (\<open>objects\<close> holds references, here the
  identities). \<open>sent\<close> lists the frames given to \<open>ws.send\<close>.
\<close>

record bridge =
  ws :: "ready_state option"
  scene :: node
  detached :: "node list"
  next_id :: nat
  rotatingObjects :: "(string \<times> real) list"
  objects :: "(string \<times> nat) list"
  cameraTween :: "camera_tween option"
  cameraLookAt :: "vec3 option"
  sent :: "json list"

definition world :: "bridge \<Rightarrow> node list" where
  "world b = concat (map nodes (scene b # detached b))"

definition lookup :: "bridge \<Rightarrow> nat \<Rightarrow> node option" where
  "lookup b i = find (\<lambda>n. nid n = i) (world b)"

text \<open>\<open>node.parent\<close>, as the identity of the parent.\<close>

definition parent_of :: "bridge \<Rightarrow> nat \<Rightarrow> nat option" where
  "parent_of b i = map_option nid (find (\<lambda>n. i \<in> set (map nid (children n))) (world b))"

definition modify_world :: "nat \<Rightarrow> (object3d \<Rightarrow> object3d) \<Rightarrow> bridge \<Rightarrow> bridge" where
  "modify_world i f b = b\<lparr>scene := modify i f (scene b), detached := map (modify i f) (detached b)\<rparr>"

text \<open>\<open>obj.removeFromParent()\<close>: nothing happens to a node without parent.\<close>

definition removeFromParent :: "node \<Rightarrow> bridge \<Rightarrow> bridge" where
  "removeFromParent n b =
     (case parent_of b (nid n) of
        None \<Rightarrow> b
      | Some p \<Rightarrow> b\<lparr>scene := detach (nid n) (scene b),
                     detached := map (detach (nid n)) (detached b) @ [n]\<rparr>)"

text \<open>\<open>parent.add(clone)\<close> for a freshly made clone.\<close>

definition add_child :: "nat \<Rightarrow> node \<Rightarrow> bridge \<Rightarrow> bridge" where
  "add_child p c b = b\<lparr>scene := attach p c (scene b), detached := map (attach p c) (detached b)\<rparr>"

subsection \<open>Results and responses\<close>

definition success :: json where
  "success = JObj [(''success'', JBool True)]"

definition success_id :: "string \<Rightarrow> json" where
  "success_id i = JObj [(''success'', JBool True), (''id'', JStr i)]"

definition failure :: "string \<Rightarrow> json" where
  "failure e = JObj [(''success'', JBool False), (''error'', JStr e)]"

text \<open>The keys an object spread copies: those of an object, the indices of an array.\<close>

fun spread :: "json \<Rightarrow> (string \<times> json) list" where
  "spread (JObj kvs) = kvs"
| "spread (JArr xs) = zip (map show_nat [0..<length xs]) xs"
| "spread j = [(''data'', j)]"

text \<open>\<open>{ requestId, ...payload }\<close>: a key \<open>requestId\<close> of the payload takes the place
  of the identifier.\<close>

definition response :: "string \<Rightarrow> json \<Rightarrow> json" where
  "response rid data =
     (case map_of (spread data) ''requestId'' of
        None \<Rightarrow> JObj ((''requestId'', JStr rid) # spread data)
      | Some v \<Rightarrow> JObj ((''requestId'', v) # filter (\<lambda>kv. fst kv \<noteq> ''requestId'') (spread data)))"

definition sendResponse :: "string option \<Rightarrow> json \<Rightarrow> bridge \<Rightarrow> bridge" where
  "sendResponse rid data b =
     (case rid of
        None \<Rightarrow> b
      | Some r \<Rightarrow> if ws b \<noteq> None \<and> ws b = Some OPEN \<and> r \<noteq> []
                  then b\<lparr>sent := sent b @ [response r data]\<rparr> else b)"

subsection \<open>Object registry\<close>

text \<open>\<open>String.prototype.split\<close> with a one-character separator.\<close>

fun split_on :: "char \<Rightarrow> string \<Rightarrow> string list" where
  "split_on c [] = [[]]"
| "split_on c (x # xs) =
     (if x = c then [] # split_on c xs
      else (case split_on c xs of [] \<Rightarrow> [[x]] | p # ps \<Rightarrow> (x # p) # ps))"

text \<open>The loop over the path segments in \<open>findObject\<close>.\<close>

fun walk :: "node \<Rightarrow> string list \<Rightarrow> node option" where
  "walk current [] = Some current"
| "walk current (part # parts) =
     (case find (\<lambda>n. name (obj n) = part \<or> otype (obj n) = part) (children current) of
        None \<Rightarrow> None
      | Some child \<Rightarrow> walk child parts)"

text \<open>\<open>this.objects.get(name)\<close>: the node the index refers to.\<close>

definition objects_get :: "bridge \<Rightarrow> string \<Rightarrow> node option" where
  "objects_get b nm = (case map_of (objects b) nm of None \<Rightarrow> None | Some i \<Rightarrow> lookup b i)"

definition findObject :: "bridge \<Rightarrow> string \<Rightarrow> node option" where
  "findObject b nameOrPath =
     (case (case objects_get b nameOrPath of
              Some n \<Rightarrow> Some n
            | None \<Rightarrow> getObjectByName (scene b) nameOrPath) of
        Some direct \<Rightarrow> Some direct
      | None \<Rightarrow>
          (case walk (scene b) (split_on CHR ''/'' nameOrPath) of
             None \<Rightarrow> None
           | Some current \<Rightarrow> if nid current = nid (scene b) then None else Some current))"

definition moveObject :: "string \<Rightarrow> vec3 \<Rightarrow> bridge \<Rightarrow> json \<times> bridge" where
  "moveObject nameOrPath pos b =
     (case findObject b nameOrPath of
        None \<Rightarrow> (failure (''Object not found: '' @ nameOrPath), b)
      | Some n \<Rightarrow> (success, modify_world (nid n) (\<lambda>ob. ob\<lparr>position := pos\<rparr>) b))"

datatype transform_prop = Rotation | Scale

definition setTransform :: "string \<Rightarrow> transform_prop \<Rightarrow> vec3 \<Rightarrow> bridge \<Rightarrow> json \<times> bridge" where
  "setTransform nm prop vals b =
     (case findObject b nm of
        None \<Rightarrow> (failure (''Object not found: '' @ nm), b)
      | Some n \<Rightarrow>
          (case prop of
             Rotation \<Rightarrow> (success, b)
           | Scale \<Rightarrow> (success, modify_world (nid n) (\<lambda>ob. ob\<lparr>scale := vals\<rparr>) b)))"

definition setVisibility :: "string \<Rightarrow> bool \<Rightarrow> bridge \<Rightarrow> json \<times> bridge" where
  "setVisibility nm v b =
     (case findObject b nm of
        None \<Rightarrow> (failure (''Object not found: '' @ nm), b)
      | Some n \<Rightarrow> (success, modify_world (nid n) (\<lambda>ob. ob\<lparr>visible := v\<rparr>) b))"

definition removeObject :: "string \<Rightarrow> bridge \<Rightarrow> json \<times> bridge" where
  "removeObject nm b =
     (case findObject b nm of
        None \<Rightarrow> (failure (''Object not found: '' @ nm), b)
      | Some n \<Rightarrow>
          (let b1 = removeFromParent n b;
               b2 = b1\<lparr>objects := AList.delete nm (objects b1)\<rparr>;
               b3 = b2\<lparr>rotatingObjects := AList.delete nm (rotatingObjects b2)\<rparr>
           in (success, b3)))"

definition vadd :: "vec3 \<Rightarrow> vec3 \<Rightarrow> vec3" where
  "vadd p d = (case p of (x, y, z) \<Rightarrow> (case d of (dx, dy, dz) \<Rightarrow> (x + dx, y + dy, z + dz)))"

text \<open>The clone made by \<open>duplicateObject\<close>: renamed, and moved by the offset if there is one.\<close>

definition make_clone :: "nat \<Rightarrow> node \<Rightarrow> string \<Rightarrow> vec3 option \<Rightarrow> node" where
  "make_clone k source newName offset =
     (case clone_from k source of
        Node i ob cs \<Rightarrow>
          Node i (ob\<lparr>name := newName,
                     position := (case offset of None \<Rightarrow> position ob
                                  | Some d \<Rightarrow> vadd (position ob) d)\<rparr>) cs)"

definition duplicateObject :: "string \<Rightarrow> string \<Rightarrow> vec3 option \<Rightarrow> bridge \<Rightarrow> json \<times> bridge" where
  "duplicateObject sourceName newName offset b =
     (case findObject b sourceName of
        None \<Rightarrow> (failure (''Source object not found: '' @ sourceName), b)
      | Some source \<Rightarrow>
          (let clone = make_clone (next_id b) source newName offset;
               b1 = b\<lparr>next_id := next_id b + length (nodes source)\<rparr>;
               p = (case parent_of b1 (nid source) of Some q \<Rightarrow> q | None \<Rightarrow> nid (scene b1));
               b2 = add_child p clone b1;
               b3 = b2\<lparr>objects := AList.update newName (nid clone) (objects b2)\<rparr>
           in (success_id newName, b3)))"

subsection \<open>Camera and transition scheduler\<close>

definition getActiveCamera :: "bridge \<Rightarrow> node option" where
  "getActiveCamera b = find (\<lambda>n. isCamera (obj n)) (nodes (scene b))"

text \<open>\<open>Vector3.lerpVectors(v1, v2, alpha)\<close> and \<open>lerpNumber\<close>.\<close>

definition lerpNumber :: "real \<Rightarrow> real \<Rightarrow> real \<Rightarrow> real" where
  "lerpNumber a b t = a + (b - a) * t"

definition lerpVectors :: "vec3 \<Rightarrow> vec3 \<Rightarrow> real \<Rightarrow> vec3" where
  "lerpVectors v1 v2 alpha =
     (case v1 of (x1, y1, z1) \<Rightarrow> (case v2 of (x2, y2, z2) \<Rightarrow>
        (x1 + (x2 - x1) * alpha, y1 + (y2 - y1) * alpha, z1 + (z2 - z1) * alpha)))"

text \<open>
  The interpolation parameter computed by \<open>update\<close>: \<open>Math.max(0, duration)\<close>, then 1
  for a zero duration and \<open>Math.min(1, (now - startTime) / duration)\<close> otherwise.
\<close>

definition tween_t :: "camera_tween \<Rightarrow> real \<Rightarrow> real" where
  "tween_t tw now =
     (let d = max 0 (duration tw)
      in if d = 0 then 1 else min 1 ((now - startTime tw) / d))"

definition lerp_lens :: "camera_tween \<Rightarrow> real \<Rightarrow> object3d \<Rightarrow> object3d" where
  "lerp_lens tw t ob =
     (let ob1 = (case (fromFov tw, toFov tw) of
                   (Some a, Some c) \<Rightarrow> ob\<lparr>fov := lerpNumber a c t\<rparr> | _ \<Rightarrow> ob);
          ob2 = (case (fromNear tw, toNear tw) of
                   (Some a, Some c) \<Rightarrow> ob1\<lparr>near := lerpNumber a c t\<rparr> | _ \<Rightarrow> ob1);
          ob3 = (case (fromFar tw, toFar tw) of
                   (Some a, Some c) \<Rightarrow> ob2\<lparr>far := lerpNumber a c t\<rparr> | _ \<Rightarrow> ob2)
      in ob3)"

text \<open>
  \<open>update()\<close>, with the reading \<open>now\<close> of the clock as argument. The loop over
  \<open>rotatingObjects\<close> only turns objects and has no effect on the modelled state.
\<close>

definition update :: "real \<Rightarrow> bridge \<Rightarrow> bridge" where
  "update now b =
     (case cameraTween b of
        None \<Rightarrow> b
      | Some tw \<Rightarrow>
          (case getActiveCamera b of
             None \<Rightarrow> b\<lparr>cameraTween := None\<rparr>
           | Some camera \<Rightarrow>
               (let t = tween_t tw now;
                    b1 = modify_world (nid camera)
                           (\<lambda>ob. ob\<lparr>position := lerpVectors (tw_from tw) (tw_to tw) t\<rparr>) b;
                    b2 = (case toLookAt tw of
                            None \<Rightarrow> b1
                          | Some tgt \<Rightarrow>
                              (let fl = (case fromLookAt tw of Some f \<Rightarrow> f | None \<Rightarrow> tgt)
                               in b1\<lparr>cameraLookAt := Some (lerpVectors fl tgt t)\<rparr>));
                    b3 = (if isPerspectiveCamera (obj camera)
                          then modify_world (nid camera) (lerp_lens tw t) b2 else b2)
                in if t \<ge> 1 then b3\<lparr>cameraTween := None\<rparr> else b3)))"

subsection \<open>Command interpreter\<close>

text \<open>
  What a handler does: it returns a result, or throws an error with a message; either
  way it may have changed the state.
\<close>

datatype outcome = Returns json bridge | Throws string bridge

text \<open>
  What the model takes from outside: the reading of \<open>performance.now()\<close>, the direction
  \<open>camera.getWorldDirection\<close> reports, and the behaviour of the handlers that are not
  modelled (scene inspection, \<open>lookAt\<close>, \<open>setOpacity\<close>, creation of primitives and
  lights) and of the modelled handlers on arguments that do not have the type their
  signature declares: any result or any exception.
\<close>

record environment =
  clock :: real
  worldDirection :: vec3
  other :: "mcp_command \<Rightarrow> bridge \<Rightarrow> outcome"

definition field :: "mcp_command \<Rightarrow> string \<Rightarrow> json option" where
  "field command k = map_of (args command) k"

text \<open>JavaScript truthiness of a field that may be absent.\<close>

fun truthy :: "json option \<Rightarrow> bool" where
  "truthy None = False"
| "truthy (Some JNull) = False"
| "truthy (Some (JBool v)) = v"
| "truthy (Some (JNum x)) = (x \<noteq> 0)"
| "truthy (Some (JStr s)) = (s \<noteq> [])"
| "truthy (Some _) = True"

fun as_string :: "json option \<Rightarrow> string option" where
  "as_string (Some (JStr s)) = Some s"
| "as_string _ = None"

text \<open>\<open>a || b\<close> where a string is expected.\<close>

definition string_or :: "json option \<Rightarrow> json option \<Rightarrow> string option" where
  "string_or a c = (if truthy a then as_string a else as_string c)"

text \<open>The first three elements of an array of numbers.\<close>

fun as_vec3 :: "json option \<Rightarrow> vec3 option" where
  "as_vec3 (Some (JArr (JNum x # JNum y # JNum z # _))) = Some (x, y, z)"
| "as_vec3 _ = None"

fun as_bool :: "json option \<Rightarrow> bool option" where
  "as_bool (Some (JBool v)) = Some v"
| "as_bool _ = None"

fun as_number :: "json option \<Rightarrow> real option" where
  "as_number (Some (JNum x)) = Some x"
| "as_number _ = None"

definition returns :: "json \<times> bridge \<Rightarrow> outcome" where
  "returns rb = Returns (fst rb) (snd rb)"

definition getCameraLookAt :: "environment \<Rightarrow> node \<Rightarrow> bridge \<Rightarrow> vec3" where
  "getCameraLookAt env camera b =
     (case cameraLookAt b of
        Some v \<Rightarrow> v
      | None \<Rightarrow> vadd (position (obj camera)) (worldDirection env))"

text \<open>The assignments to the lens made when the camera is moved without animation.\<close>

definition set_lens :: "mcp_command \<Rightarrow> object3d \<Rightarrow> object3d" where
  "set_lens command ob =
     (let ob1 = (case as_number (field command ''fov'') of Some v \<Rightarrow> ob\<lparr>fov := v\<rparr> | None \<Rightarrow> ob);
          ob2 = (case as_number (field command ''near'') of Some v \<Rightarrow> ob1\<lparr>near := v\<rparr> | None \<Rightarrow> ob1);
          ob3 = (case as_number (field command ''far'') of Some v \<Rightarrow> ob2\<lparr>far := v\<rparr> | None \<Rightarrow> ob2)
      in ob3)"

text \<open>
  \<open>setCameraPosition\<close> once \<open>position\<close> and \<open>lookAt\<close> have been read as vectors.
\<close>

definition moveCamera ::
  "environment \<Rightarrow> mcp_command \<Rightarrow> node \<Rightarrow> vec3 \<Rightarrow> vec3 option \<Rightarrow> bridge \<Rightarrow> json \<times> bridge" where
  "moveCamera env command camera targetPosition targetLookAt b =
     (let animate = truthy (field command ''animate'');
          dur = (case as_number (field command ''duration'') of Some d \<Rightarrow> max 0 d | None \<Rightarrow> 0);
          wantsLens = (isPerspectiveCamera (obj camera) \<and>
             (as_number (field command ''fov'') \<noteq> None \<or> as_number (field command ''near'') \<noteq> None \<or>
              as_number (field command ''far'') \<noteq> None))
      in if animate \<and> dur > 0 then
           (let tween0 = \<lparr>startTime = clock env, duration = dur,
                  tw_from = position (obj camera), tw_to = targetPosition,
                  fromLookAt = None, toLookAt = None, fromFov = None, toFov = None,
                  fromNear = None, toNear = None, fromFar = None, toFar = None\<rparr>;
                tween1 = (case targetLookAt of
                            None \<Rightarrow> tween0
                          | Some tgt \<Rightarrow> tween0\<lparr>fromLookAt := Some (getCameraLookAt env camera b),
                                               toLookAt := Some tgt\<rparr>);
                tween2 = (if wantsLens then
                            tween1\<lparr>fromFov := Some (fov (obj camera)),
                                   fromNear := Some (near (obj camera)),
                                   fromFar := Some (far (obj camera)),
                                   toFov := Some (case as_number (field command ''fov'') of
                                                    Some v \<Rightarrow> v | None \<Rightarrow> fov (obj camera)),
                                   toNear := Some (case as_number (field command ''near'') of
                                                     Some v \<Rightarrow> v | None \<Rightarrow> near (obj camera)),
                                   toFar := Some (case as_number (field command ''far'') of
                                                    Some v \<Rightarrow> v | None \<Rightarrow> far (obj camera))\<rparr>
                          else tween1)
            in (success, b\<lparr>cameraTween := Some tween2\<rparr>))
         else
           (let b1 = b\<lparr>cameraTween := None\<rparr>;
                b2 = modify_world (nid camera) (\<lambda>ob. ob\<lparr>position := targetPosition\<rparr>) b1;
                b3 = (case targetLookAt of None \<Rightarrow> b2 | Some tgt \<Rightarrow> b2\<lparr>cameraLookAt := Some tgt\<rparr>);
                b4 = (if wantsLens then modify_world (nid camera) (set_lens command) b3 else b3)
            in (success, b4)))"

text \<open>
  How \<open>setCameraPosition\<close> reads its two vector arguments. For \<open>position\<close>, the
  test \<open>!position || position.length !== 3\<close> refuses everything that is falsy or has
  no length 3; an array of three numbers is a position; what passes the test without
  being one (an array of three other values, a string of length 3, an object with a
  \<open>length\<close> of 3) does not have the declared type \<open>number[]\<close>. For \<open>lookAt\<close>,
  only an array counts (\<open>Array.isArray\<close>), and its first three elements are read.
\<close>

datatype 'a arg = Missing | Arg 'a | IllTyped

fun position_arg :: "json option \<Rightarrow> vec3 arg" where
  "position_arg (Some (JArr xs)) =
     (if length xs \<noteq> 3 then Missing
      else case as_vec3 (Some (JArr xs)) of Some v \<Rightarrow> Arg v | None \<Rightarrow> IllTyped)"
| "position_arg (Some (JStr s)) = (if length s \<noteq> 3 then Missing else IllTyped)"
| "position_arg (Some (JObj kvs)) =
     (if map_of kvs ''length'' = Some (JNum 3) then IllTyped else Missing)"
| "position_arg _ = Missing"

fun lookAt_arg :: "json option \<Rightarrow> vec3 arg" where
  "lookAt_arg (Some (JArr ys)) =
     (case as_vec3 (Some (JArr ys)) of Some v \<Rightarrow> Arg v | None \<Rightarrow> IllTyped)"
| "lookAt_arg _ = Missing"

definition setCameraPosition :: "environment \<Rightarrow> mcp_command \<Rightarrow> bridge \<Rightarrow> outcome" where
  "setCameraPosition env command b =
     (case getActiveCamera b of
        None \<Rightarrow> Returns (failure ''No camera found'') b
      | Some camera \<Rightarrow>
          (case position_arg (field command ''position'') of
             Missing \<Rightarrow> Returns (failure ''Invalid camera position'') b
           | IllTyped \<Rightarrow> other env command b
           | Arg targetPosition \<Rightarrow>
               (case lookAt_arg (field command ''lookAt'') of
                  Missing \<Rightarrow> returns (moveCamera env command camera targetPosition None b)
                | IllTyped \<Rightarrow> other env command b
                | Arg targetLookAt \<Rightarrow>
                    returns (moveCamera env command camera targetPosition (Some targetLookAt) b))))"

text \<open>The case labels of the \<open>switch\<close> in \<open>handleCommand\<close>.\<close>

definition dispatch_table :: "string list" where
  "dispatch_table =
     [''getFullSceneState'', ''findObjects'', ''moveObject'', ''moveSceneObject'', ''setRotation'',
      ''setScale'', ''setVisibility'', ''lookAt'', ''setOpacity'', ''getCameraState'',
      ''setCameraPosition'', ''addObject'', ''addPrimitive'', ''removeObject'', ''duplicateObject'',
      ''startRotation'', ''stopRotation'', ''addLight'']"

text \<open>
  The \<open>switch\<close>. A handler is run when its arguments have the types of its signature;
  otherwise, and for the handlers that are not modelled, the outcome is the environment's.
\<close>

definition dispatch :: "environment \<Rightarrow> mcp_command \<Rightarrow> bridge \<Rightarrow> outcome" where
  "dispatch env command b =
     (let a = action command in
      if a = ''getFullSceneState'' then other env command b
      else if a = ''findObjects'' then other env command b
      else if a = ''moveObject'' \<or> a = ''moveSceneObject'' then
        (case (string_or (field command ''name'') (field command ''path''),
               as_vec3 (field command ''position'')) of
           (Some n, Some p) \<Rightarrow> returns (moveObject n p b)
         | _ \<Rightarrow> other env command b)
      else if a = ''setRotation'' then
        (case (as_string (field command ''name''), as_vec3 (field command ''rotation'')) of
           (Some n, Some v) \<Rightarrow> returns (setTransform n Rotation v b)
         | _ \<Rightarrow> other env command b)
      else if a = ''setScale'' then
        (case (as_string (field command ''name''), as_vec3 (field command ''scale'')) of
           (Some n, Some v) \<Rightarrow> returns (setTransform n Scale v b)
         | _ \<Rightarrow> other env command b)
      else if a = ''setVisibility'' then
        (case (as_string (field command ''name''), as_bool (field command ''visible'')) of
           (Some n, Some v) \<Rightarrow> returns (setVisibility n v b)
         | _ \<Rightarrow> other env command b)
      else if a = ''lookAt'' then other env command b
      else if a = ''setOpacity'' then other env command b
      else if a = ''getCameraState'' then other env command b
      else if a = ''setCameraPosition'' then setCameraPosition env command b
      else if a = ''addObject'' \<or> a = ''addPrimitive'' then other env command b
      else if a = ''removeObject'' then
        (case string_or (field command ''name'') (field command ''id'') of
           Some n \<Rightarrow> returns (removeObject n b)
         | None \<Rightarrow> other env command b)
      else if a = ''duplicateObject'' then
        (case (as_string (field command ''name''), as_string (field command ''newName'')) of
           (Some n, Some m) \<Rightarrow>
             (if \<not> truthy (field command ''offset'') then returns (duplicateObject n m None b)
              else case as_vec3 (field command ''offset'') of
                Some d \<Rightarrow> returns (duplicateObject n m (Some d) b)
              | None \<Rightarrow> other env command b)
         | _ \<Rightarrow> other env command b)
      else if a = ''startRotation'' then
        (case as_string (field command ''id'') of
           Some i \<Rightarrow>
             (if \<not> truthy (field command ''speed'')
              then Returns success (b\<lparr>rotatingObjects := AList.update i 1 (rotatingObjects b)\<rparr>)
              else case as_number (field command ''speed'') of
                Some v \<Rightarrow> Returns success (b\<lparr>rotatingObjects := AList.update i v (rotatingObjects b)\<rparr>)
              | None \<Rightarrow> other env command b)
         | None \<Rightarrow> other env command b)
      else if a = ''stopRotation'' then
        (case as_string (field command ''id'') of
           Some i \<Rightarrow> Returns success (b\<lparr>rotatingObjects := AList.delete i (rotatingObjects b)\<rparr>)
         | None \<Rightarrow> other env command b)
      else if a = ''addLight'' then other env command b
      else Returns (failure (''Unknown action: '' @ a)) b)"

text \<open>
  \<open>handleCommand\<close>: the \<open>try\<close>/\<open>catch\<close> around the \<open>switch\<close> turns an exception into a
  result, and the result is handed to \<open>sendResponse\<close>.
\<close>

definition handleCommand :: "environment \<Rightarrow> mcp_command \<Rightarrow> bridge \<Rightarrow> bridge" where
  "handleCommand env command b =
     (case dispatch env command b of
        Returns result b1 \<Rightarrow> sendResponse (requestId command) result b1
      | Throws e b1 \<Rightarrow> sendResponse (requestId command) (failure e) b1)"

subsection \<open>Auxiliary notions and example states of the runtime side\<close>

definition plain :: "string \<Rightarrow> string \<Rightarrow> vec3 \<Rightarrow> object3d" where
  "plain nm ty p = \<lparr>name = nm, otype = ty, position = p, scale = (1, 1, 1), visible = True,
     isCamera = False, isPerspectiveCamera = False, fov = 0, near = 0, far = 0\<rparr>"

definition camera_obj :: "string \<Rightarrow> vec3 \<Rightarrow> object3d" where
  "camera_obj nm p = \<lparr>name = nm, otype = ''PerspectiveCamera'', position = p, scale = (1, 1, 1),
     visible = True, isCamera = True, isPerspectiveCamera = True, fov = 50, near = 1 / 10, far = 2000\<rparr>"

text \<open>A scene with a camera and a box at \<open>[1,2,3]\<close> inside a group.\<close>

definition demo_scene :: node where
  "demo_scene = Node 0 (plain '''' ''Scene'' (0, 0, 0))
     [Node 1 (camera_obj ''cam'' (0, 0, 0)) [],
      Node 2 (plain ''group'' ''Group'' (0, 0, 0))
        [Node 3 (plain ''box'' ''Mesh'' (1, 2, 3)) []]]"

definition demo :: bridge where
  "demo = \<lparr>ws = Some OPEN, scene = demo_scene, detached = [], next_id = 4,
     rotatingObjects = [], objects = [], cameraTween = None, cameraLookAt = None, sent = []\<rparr>"

definition demo_env :: environment where
  "demo_env = \<lparr>clock = 1000, worldDirection = (0, 0, -1),
     other = (\<lambda>c b. Throws ''TypeError'' b)\<rparr>"

definition camera_position :: "bridge \<Rightarrow> vec3 option" where
  "camera_position b = map_option (\<lambda>n. position (obj n)) (getActiveCamera b)"

definition demo_tween :: camera_tween where
  "demo_tween = \<lparr>startTime = 1000, duration = 2000, tw_from = (0, 0, 0), tw_to = (10, 4, -2),
     fromLookAt = None, toLookAt = None, fromFov = None, toFov = None,
     fromNear = None, toNear = None, fromFar = None, toFar = None\<rparr>"

definition demo_moving :: bridge where
  "demo_moving = demo\<lparr>cameraTween := Some demo_tween\<rparr>"

definition cmd_fly :: mcp_command where
  "cmd_fly = \<lparr>action = ''fly'', requestId = Some ''req_7'', args = []\<rparr>"

text \<open>
  Two facts about every state the handlers produce: \<open>next_id\<close> lies beyond every identity
  in use, and the name index never refers to the scene root (it holds objects the bridge
  has made).
\<close>

definition bridge_inv :: "bridge \<Rightarrow> bool" where
  "bridge_inv b \<longleftrightarrow>
     (\<forall>n \<in> set (world b). nid n < next_id b) \<and>
     (\<forall>kv \<in> set (objects b). snd kv \<noteq> nid (scene b))"

definition roots :: "bridge \<Rightarrow> node list" where
  "roots b = scene b # detached b"

text \<open>The state after \<open>duplicateObject\<close> has found its source.\<close>

definition duplicated :: "node \<Rightarrow> string \<Rightarrow> vec3 option \<Rightarrow> bridge \<Rightarrow> bridge" where
  "duplicated source newName offset b =
     (add_child (case parent_of b (nid source) of Some q \<Rightarrow> q | None \<Rightarrow> nid (scene b))
        (make_clone (next_id b) source newName offset)
        (b\<lparr>next_id := next_id b + length (nodes source)\<rparr>))
     \<lparr>objects := AList.update newName (next_id b) (objects b)\<rparr>"

definition cmd_duplicate :: mcp_command where
  "cmd_duplicate = \<lparr>action = ''duplicateObject'', requestId = Some ''req_1'',
     args = [(''name'', JStr ''box''), (''newName'', JStr ''copy''),
             (''offset'', JArr [JNum 3, JNum 0, JNum 0])]\<rparr>"

definition cmd_spin :: mcp_command where
  "cmd_spin = \<lparr>action = ''startRotation'', requestId = None, args = [(''id'', JStr ''copy'')]\<rparr>"

text \<open>The demo scene after the box has been duplicated as \<open>copy\<close> and set spinning, and
  after it has been duplicated under that same name once more.\<close>

definition demo_copy :: bridge where
  "demo_copy = handleCommand demo_env cmd_spin (handleCommand demo_env cmd_duplicate demo)"

definition demo_two_copies :: bridge where
  "demo_two_copies = handleCommand demo_env (cmd_duplicate\<lparr>requestId := None\<rparr>) demo_copy"

fun outcome_state :: "outcome \<Rightarrow> bridge" where
  "outcome_state (Returns r b) = b"
| "outcome_state (Throws e b) = b"

section \<open>Control plane: proofs\<close>

lemma digit_val_digit_char: "d < 10 \<Longrightarrow> digit_val (digit_char d) = d"
proof -
  assume "d < 10"
  then have "d \<in> {0,1,2,3,4,5,6,7,8,9}" by auto
  then show ?thesis
    by (auto simp: digit_val_def digit_char_def)
qed

lemma digits_val_snoc: "digits_val (cs @ [c]) = 10 * digits_val cs + digit_val c"
  by (simp add: digits_val_def)

lemma digits_val_show_nat: "digits_val (show_nat n) = n"
proof (induction n rule: show_nat.induct)
  case (1 n)
  show ?case
  proof (cases "n < 10")
    case True
    then show ?thesis
      by (simp add: show_nat.simps [of n] digits_val_def digit_val_digit_char)
  next
    case False
    with 1 have "digits_val (show_nat (n div 10)) = n div 10" by simp
    with False show ?thesis
      by (simp add: show_nat.simps [of n] digits_val_snoc digit_val_digit_char)
  qed
qed

lemma show_nat_inj: "show_nat m = show_nat n \<Longrightarrow> m = n"
  by (metis digits_val_show_nat)

lemma req_id_inj [simp]: "req_id m = req_id n \<longleftrightarrow> m = n"
  by (auto simp: req_id_def dest: show_nat_inj)

lemma inv_init: "server_inv init_server"
  by (simp add: server_inv_def pending_ok_def timers_ok_def settled_ok_def init_server_def)

lemma ok_client [simp]:
  "pending_ok (s\<lparr>client := c\<rparr>) = pending_ok s"
  "timers_ok (s\<lparr>client := c\<rparr>) = timers_ok s"
  "settled_ok (s\<lparr>client := c\<rparr>) = settled_ok s"
  by (simp_all add: pending_ok_def timers_ok_def settled_ok_def)

lemma ok_cache [simp]:
  "pending_ok (s\<lparr>lastSceneState := j\<rparr>) = pending_ok s"
  "timers_ok (s\<lparr>lastSceneState := j\<rparr>) = timers_ok s"
  "settled_ok (s\<lparr>lastSceneState := j\<rparr>) = settled_ok s"
  by (simp_all add: pending_ok_def timers_ok_def settled_ok_def)

lemma inv_client: "server_inv s \<Longrightarrow> server_inv (s\<lparr>client := c\<rparr>)"
  by (simp add: server_inv_def)

lemma inv_cache: "server_inv s \<Longrightarrow> server_inv (s\<lparr>lastSceneState := j\<rparr>)"
  by (simp add: server_inv_def)

lemma pending_fresh:
  assumes "pending_ok s" "requestId_ctr s < n"
  shows "map_of (pendingRequests s) (req_id n) = None"
proof (rule ccontr)
  assume "map_of (pendingRequests s) (req_id n) \<noteq> None"
  then obtain pe where pe: "map_of (pendingRequests s) (req_id n) = Some pe" by auto
  with assms(1) have "promise pe \<le> requestId_ctr s" "req_id n = req_id (promise pe)"
    by (auto simp: pending_ok_def)
  with assms(2) show False by simp
qed

lemma timer_fresh:
  assumes "timers_ok s" "pending_ok s" "requestId_ctr s < n"
  shows "map_of (timers s) n = None"
proof (rule ccontr)
  assume "map_of (timers s) n \<noteq> None"
  then obtain c where c: "map_of (timers s) n = Some c" by auto
  with assms(1) have "map_of (pendingRequests s) (t_requestId c) = Some \<lparr>promise = t_promise c, timeout = n\<rparr>"
    by (auto simp: timers_ok_def)
  with assms(2) have "n = t_promise c" "t_promise c \<le> requestId_ctr s"
    by (force simp: pending_ok_def)+
  with assms(3) show False by simp
qed

lemma inv_finish:
  assumes inv: "server_inv s" and pe: "map_of (pendingRequests s) r = Some \<lparr>promise = n, timeout = n\<rparr>"
  shows "server_inv (finish r n v s)"
proof -
  from inv have d: "distinct (map fst (pendingRequests s))" "distinct (map fst (timers s))"
    and po: "pending_ok s" and tk: "timers_ok s" and so: "settled_ok s"
    by (auto simp: server_inv_def)
  from po pe have n: "0 < n" "n \<le> requestId_ctr s" "r = req_id n" "n \<notin> fst ` set (settled s)"
    by (force simp: pending_ok_def)+
  have 1: "pending_ok (finish r n v s)"
    unfolding pending_ok_def
  proof (intro allI impI)
    fix r' pe' assume "map_of (pendingRequests (finish r n v s)) r' = Some pe'"
    then have a: "r' \<noteq> r" "map_of (pendingRequests s) r' = Some pe'"
      by (auto simp: finish_def delete_conv' split: if_splits)
    with po have b: "0 < promise pe'" "promise pe' \<le> requestId_ctr s" "r' = req_id (promise pe')"
      "timeout pe' = promise pe'" "promise pe' \<notin> fst ` set (settled s)"
      "\<exists>c. map_of (timers s) (promise pe') = Some c \<and> t_requestId c = r' \<and> t_promise c = promise pe'"
      by (auto simp: pending_ok_def)
    from a b n have ne: "promise pe' \<noteq> n" by auto
    with b show "0 < promise pe' \<and> promise pe' \<le> requestId_ctr (finish r n v s) \<and>
        r' = req_id (promise pe') \<and> timeout pe' = promise pe' \<and>
        promise pe' \<notin> fst ` set (settled (finish r n v s)) \<and>
        (\<exists>c. map_of (timers (finish r n v s)) (promise pe') = Some c \<and> t_requestId c = r' \<and>
             t_promise c = promise pe')"
      by (auto simp: finish_def delete_conv')
  qed
  have 2: "timers_ok (finish r n v s)"
    unfolding timers_ok_def
  proof (intro allI impI)
    fix t c assume "map_of (timers (finish r n v s)) t = Some c"
    then have a: "t \<noteq> n" "map_of (timers s) t = Some c"
      by (auto simp: finish_def delete_conv' split: if_splits)
    with tk have b: "map_of (pendingRequests s) (t_requestId c) = Some \<lparr>promise = t_promise c, timeout = t\<rparr>"
      by (auto simp: timers_ok_def)
    with a pe have "t_requestId c \<noteq> r" by auto
    with b show "map_of (pendingRequests (finish r n v s)) (t_requestId c) =
        Some \<lparr>promise = t_promise c, timeout = t\<rparr>"
      by (simp add: finish_def delete_conv')
  qed
  have 3: "settled_ok (finish r n v s)"
    using so n by (auto simp: settled_ok_def finish_def)
  from d 1 2 3 show ?thesis
    by (simp add: server_inv_def finish_def distinct_delete)
qed

lemma pending_get_Some:
  "pending_get s j = Some (r, pe) \<longleftrightarrow> j = Some (JStr r) \<and> map_of (pendingRequests s) r = Some pe"
  by (cases "(s, j)" rule: pending_get.cases) auto

lemma pending_get_cache [simp]: "pending_get (s\<lparr>lastSceneState := j\<rparr>) k = pending_get s k"
  by (cases "(s, k)" rule: pending_get.cases) auto

lemma pending_entry_eq:
  "pending_ok s \<Longrightarrow> map_of (pendingRequests s) r = Some pe \<Longrightarrow> pe = \<lparr>promise = promise pe, timeout = promise pe\<rparr>"
  by (auto simp: pending_ok_def)

lemma handleMessage_finish:
  assumes "pending_ok s"
  shows "handleMessage m s =
    (let s1 = (if has_key ''data'' m then s\<lparr>lastSceneState := m\<rparr> else s)
     in if has_key ''requestId'' m then
          (case pending_get s1 (get_key ''requestId'' m) of
             None \<Rightarrow> s1
           | Some (r, pe) \<Rightarrow> finish r (promise pe) (Fulfilled (rest_without ''requestId'' m)) s1)
        else s1)"
proof -
  have "timeout pe = promise pe" if "pending_get s (get_key ''requestId'' m) = Some (r, pe)" for r pe
    using that assms by (auto simp: pending_get_Some pending_ok_def)
  then show ?thesis
    unfolding handleMessage_def Let_def finish_def resolve_def clearTimeout_def
    by (auto split: option.splits)
qed

lemma inv_handleMessage: 
  assumes "server_inv s" shows "server_inv (handleMessage m s)"
proof -
  from assms have po: "pending_ok s" by (simp add: server_inv_def)
  show ?thesis
  proof (cases "pending_get s (get_key ''requestId'' m)")
    case None
    with assms po show ?thesis
      by (simp add: handleMessage_finish Let_def inv_cache)
  next
    case (Some a)
    obtain r pe where a: "a = (r, pe)" by (cases a)
    with Some have pe: "map_of (pendingRequests s) r = Some pe"
      by (simp add: pending_get_Some)
    with po have pe': "map_of (pendingRequests s) r = Some \<lparr>promise = promise pe, timeout = promise pe\<rparr>"
      using pending_entry_eq by fastforce
    have "server_inv (finish r (promise pe) v (s\<lparr>lastSceneState := j\<rparr>))" for v j
      by (rule inv_finish) (use assms pe' in \<open>simp_all add: inv_cache\<close>)
    moreover have "server_inv (finish r (promise pe) v s)" for v
      by (rule inv_finish) (use assms pe' in \<open>simp_all\<close>)
    ultimately show ?thesis
      using assms po Some a by (simp add: handleMessage_finish Let_def inv_cache)
  qed
qed

lemma on_timeout_finish:
  assumes "pending_ok s" "timers_ok s" "map_of (timers s) t = Some c"
  shows "map_of (pendingRequests s) (t_requestId c) = Some \<lparr>promise = t, timeout = t\<rparr>"
    and "t_promise c = t"
proof -
  from assms(2,3) have 1: "map_of (pendingRequests s) (t_requestId c) = Some \<lparr>promise = t_promise c, timeout = t\<rparr>"
    by (auto simp: timers_ok_def)
  with assms(1) show "t_promise c = t" by (force simp: pending_ok_def)
  with 1 show "map_of (pendingRequests s) (t_requestId c) = Some \<lparr>promise = t, timeout = t\<rparr>" by simp
qed

lemma on_timeout_eq:
  "on_timeout t s =
    (case map_of (timers s) t of
       None \<Rightarrow> s
     | Some c \<Rightarrow> finish (t_requestId c) t
         (if action (t_command c) = ''getFullSceneState'' \<or> action (t_command c) = ''findObjects''
          then Fulfilled (lastSceneState s) else Rejected ''Command timeout'') s
          \<lparr>settled := settled s @ [(t_promise c, 
             if action (t_command c) = ''getFullSceneState'' \<or> action (t_command c) = ''findObjects''
          then Fulfilled (lastSceneState s) else Rejected ''Command timeout'')]\<rparr>)"
  by (simp add: on_timeout_def finish_def resolve_def reject_def Let_def split: option.splits)

lemma inv_on_timeout:
  assumes "server_inv s" shows "server_inv (on_timeout t s)"
proof (cases "map_of (timers s) t")
  case None
  with assms show ?thesis by (simp add: on_timeout_def)
next
  case (Some c)
  from assms have po: "pending_ok s" and tk: "timers_ok s" by (simp_all add: server_inv_def)
  note f = on_timeout_finish [OF po tk Some]
  have "server_inv (finish (t_requestId c) t v s)" for v
    by (rule inv_finish) (use assms f in simp_all)
  moreover have "finish (t_requestId c) t v s\<lparr>settled := settled s @ [(t_promise c, v)]\<rparr> = finish (t_requestId c) t v s" for v
    by (simp add: finish_def f)
  ultimately show ?thesis
    using Some by (simp add: on_timeout_eq)
qed

lemma inv_registered:
  assumes "server_inv s" shows "server_inv (registered command s)"
proof -
  from assms have d: "distinct (map fst (pendingRequests s))" "distinct (map fst (timers s))"
    and po: "pending_ok s" and tk: "timers_ok s" and so: "settled_ok s"
    by (auto simp: server_inv_def)
  let ?n = "requestId_ctr s + 1"
  have fr: "map_of (pendingRequests s) (req_id ?n) = None" "map_of (timers s) ?n = None"
    using pending_fresh [OF po, of ?n] timer_fresh [OF tk po, of ?n] by simp_all
  have 1: "pending_ok (registered command s)"
    unfolding pending_ok_def
  proof (intro allI impI)
    fix r pe assume a: "map_of (pendingRequests (registered command s)) r = Some pe"
    show "0 < promise pe \<and> promise pe \<le> requestId_ctr (registered command s) \<and>
        r = req_id (promise pe) \<and> timeout pe = promise pe \<and>
        promise pe \<notin> fst ` set (settled (registered command s)) \<and>
        (\<exists>c. map_of (timers (registered command s)) (promise pe) = Some c \<and> t_requestId c = r \<and>
             t_promise c = promise pe)"
    proof (cases "r = req_id ?n")
      case True
      with a have "pe = \<lparr>promise = ?n, timeout = ?n\<rparr>"
        by (simp add: registered_def Let_def update_conv')
      with True so show ?thesis
        by (force simp: registered_def Let_def update_conv' settled_ok_def)
    next
      case False
      with a have b: "map_of (pendingRequests s) r = Some pe"
        by (simp add: registered_def Let_def update_conv')
      with po have c: "0 < promise pe" "promise pe \<le> requestId_ctr s" "r = req_id (promise pe)"
        "timeout pe = promise pe" "promise pe \<notin> fst ` set (settled s)"
        "\<exists>c. map_of (timers s) (promise pe) = Some c \<and> t_requestId c = r \<and> t_promise c = promise pe"
        by (auto simp: pending_ok_def)
      then show ?thesis
        by (auto simp: registered_def Let_def update_conv')
    qed
  qed
  have 2: "timers_ok (registered command s)"
    unfolding timers_ok_def
  proof (intro allI impI)
    fix t c assume a: "map_of (timers (registered command s)) t = Some c"
    show "map_of (pendingRequests (registered command s)) (t_requestId c) =
        Some \<lparr>promise = t_promise c, timeout = t\<rparr>"
    proof (cases "t = ?n")
      case True
      with a show ?thesis by (auto simp: registered_def Let_def update_conv')
    next
      case False
      with a have b: "map_of (timers s) t = Some c"
        by (simp add: registered_def Let_def update_conv')
      with tk have c: "map_of (pendingRequests s) (t_requestId c) = Some \<lparr>promise = t_promise c, timeout = t\<rparr>"
        by (auto simp: timers_ok_def)
      with fr have "t_requestId c \<noteq> req_id ?n" by auto
      with c show ?thesis by (simp add: registered_def Let_def update_conv')
    qed
  qed
  have 3: "settled_ok (registered command s)"
    using so by (auto simp: settled_ok_def registered_def Let_def)
  from d 1 2 3 show ?thesis
    by (simp add: server_inv_def registered_def Let_def distinct_update)
qed

lemma sendCommand_eq:
  "sendCommand command tx s =
    (if \<not> isConnected s then (Inl ''No game client connected'', s)
     else case tx of
        None \<Rightarrow> (Inr (requestId_ctr s + 1),
                  (registered command s)\<lparr>outbox := outbox s @ [command\<lparr>requestId := Some (req_id (requestId_ctr s + 1))\<rparr>]\<rparr>)
      | Some e \<Rightarrow> (Inr (requestId_ctr s + 1),
                  finish (req_id (requestId_ctr s + 1)) (requestId_ctr s + 1) (Rejected e) (registered command s)))"
  by (simp add: sendCommand_def registered_def finish_def reject_def clearTimeout_def Let_def
      split: option.splits)

lemma ok_outbox [simp]:
  "pending_ok (s\<lparr>outbox := c\<rparr>) = pending_ok s"
  "timers_ok (s\<lparr>outbox := c\<rparr>) = timers_ok s"
  "settled_ok (s\<lparr>outbox := c\<rparr>) = settled_ok s"
  by (simp_all add: pending_ok_def timers_ok_def settled_ok_def)

lemma inv_sendCommand:
  assumes "server_inv s" shows "server_inv (snd (sendCommand command tx s))"
proof -
  have r: "server_inv (registered command s)" by (rule inv_registered [OF assms])
  have "map_of (pendingRequests (registered command s)) (req_id (requestId_ctr s + 1))
      = Some \<lparr>promise = requestId_ctr s + 1, timeout = requestId_ctr s + 1\<rparr>"
    by (simp add: registered_def Let_def update_conv')
  then have "server_inv (finish (req_id (requestId_ctr s + 1)) (requestId_ctr s + 1) v (registered command s))" for v
    by (rule inv_finish [OF r])
  moreover have "server_inv ((registered command s)\<lparr>outbox := ob\<rparr>)" for ob
    using r by (simp add: server_inv_def)
  ultimately show ?thesis
    using assms by (simp add: sendCommand_eq split: option.splits)
qed

lemma fold_close_entry:
  "fold close_entry xs s =
     s\<lparr>timers := fold (\<lambda>kv. AList.delete (timeout (snd kv))) xs (timers s),
       settled := settled s @ map (\<lambda>kv. (promise (snd kv), Rejected ''Server closed'')) xs\<rparr>"
  by (induction xs arbitrary: s) (simp_all add: close_entry_def reject_def clearTimeout_def)

lemma map_of_fold_delete:
  "map_of (fold (\<lambda>kv. AList.delete (f kv)) xs al) t =
     (if t \<in> f ` set xs then None else map_of al t)"
  by (induction xs arbitrary: al) (auto simp: delete_conv')

lemma distinct_fold_delete:
  "distinct (map fst al) \<Longrightarrow> distinct (map fst (fold (\<lambda>kv. AList.delete (f kv)) xs al))"
  by (induction xs arbitrary: al) (auto simp: distinct_delete)

lemma close_eq:
  "close s = s\<lparr>wss := False, client := None,
       timers := fold (\<lambda>kv. AList.delete (timeout (snd kv))) (pendingRequests s) (timers s),
       settled := settled s @ map (\<lambda>kv. (promise (snd kv), Rejected ''Server closed'')) (pendingRequests s),
       pendingRequests := []\<rparr>"
  by (simp add: close_def fold_close_entry Let_def)

lemma pending_promises_distinct:
  assumes "distinct (map fst (pendingRequests s))" "pending_ok s"
  shows "distinct (map (\<lambda>kv. promise (snd kv)) (pendingRequests s))"
proof -
  have "map fst (pendingRequests s) = map req_id (map (\<lambda>kv. promise (snd kv)) (pendingRequests s))"
    using assms by (auto simp: pending_ok_def)
  with assms(1) show ?thesis
    by (metis distinct_map)
qed

lemma inv_close:
  assumes "server_inv s" shows "server_inv (close s)"
proof -
  from assms have d: "distinct (map fst (pendingRequests s))" "distinct (map fst (timers s))"
    and po: "pending_ok s" and tk: "timers_ok s" and so: "settled_ok s"
    by (auto simp: server_inv_def)
  have 1: "pending_ok (close s)"
    by (simp add: pending_ok_def close_eq)
  have "map_of (timers (close s)) t = None" for t
  proof (cases "map_of (timers s) t")
    case None
    then show ?thesis by (simp add: close_eq map_of_fold_delete)
  next
    case (Some c)
    with tk have "map_of (pendingRequests s) (t_requestId c) = Some \<lparr>promise = t_promise c, timeout = t\<rparr>"
      by (auto simp: timers_ok_def)
    then have "(t_requestId c, \<lparr>promise = t_promise c, timeout = t\<rparr>) \<in> set (pendingRequests s)"
      by (rule map_of_SomeD)
    then have "t \<in> (\<lambda>kv. timeout (snd kv)) ` set (pendingRequests s)"
      by force
    then show ?thesis by (simp add: close_eq map_of_fold_delete)
  qed
  then have 2: "timers_ok (close s)"
    by (simp add: timers_ok_def)
  have a: "promise pe \<notin> fst ` set (settled s) \<and> 0 < promise pe \<and> promise pe \<le> requestId_ctr s"
    if "(r, pe) \<in> set (pendingRequests s)" for r pe
  proof -
    from that d have "map_of (pendingRequests s) r = Some pe" by simp
    with po show ?thesis by (auto simp: pending_ok_def)
  qed
  have 3: "settled_ok (close s)"
  proof -
    let ?ps = "map (\<lambda>kv. promise (snd kv)) (pendingRequests s)"
    have m: "map fst (settled (close s)) = map fst (settled s) @ ?ps"
      by (simp add: close_eq comp_def)
    have b: "\<forall>p \<in> set ?ps. p \<notin> fst ` set (settled s) \<and> 0 < p \<and> p \<le> requestId_ctr s"
    proof
      fix p assume "p \<in> set ?ps"
      then obtain r pe where "(r, pe) \<in> set (pendingRequests s)" "p = promise pe" by auto
      with a [of r pe] show "p \<notin> fst ` set (settled s) \<and> 0 < p \<and> p \<le> requestId_ctr s" by simp
    qed
    have "distinct (map fst (settled s) @ ?ps)"
    proof -
      have "set (map fst (settled s)) \<inter> set ?ps = {}"
        using b by (simp only: set_map) blast
      with so pending_promises_distinct [OF d(1) po] show ?thesis
        by (simp only: distinct_append settled_ok_def)
    qed
    moreover have "\<forall>p \<in> set (map fst (settled s) @ ?ps). 0 < p \<and> p \<le> requestId_ctr s"
      using so b by (auto simp: settled_ok_def)
    moreover have "requestId_ctr (close s) = requestId_ctr s" by (simp add: close_eq)
    ultimately show ?thesis
      unfolding settled_ok_def m [symmetric] by (simp del: set_map add: set_map [symmetric])
  qed
  from d 1 2 3 show ?thesis
    by (simp add: server_inv_def close_eq distinct_fold_delete)
qed

lemma reachable_inv: "reachable s \<Longrightarrow> server_inv s"
proof (induction rule: reachable.induct)
  case r_init
  show ?case by (rule inv_init)
next
  case (r_connection s)
  then show ?case by (simp add: on_connection_def inv_client)
next
  case (r_ws_close s)
  then show ?case by (simp add: on_ws_close_def inv_client)
next
  case (r_ready_state s r)
  then show ?case by (simp add: on_ready_state_def inv_client)
next
  case (r_message s m)
  then show ?case by (simp add: inv_handleMessage)
next
  case (r_send s c tx)
  then show ?case by (simp add: inv_sendCommand)
next
  case (r_timeout s t)
  then show ?case by (simp add: inv_on_timeout)
next
  case (r_close s)
  then show ?case by (simp add: inv_close)
qed

lemma get_key_has_key: "get_key k m = Some v \<Longrightarrow> has_key k m"
  by (cases "(k, m)" rule: get_key.cases) (auto dest: map_of_SomeD intro: rev_image_eqI)

lemma handleMessage_unmatched:
  assumes "pending_get s (get_key ''requestId'' m) = None"
  shows "pendingRequests (handleMessage m s) = pendingRequests s"
    and "settled (handleMessage m s) = settled s"
    and "timers (handleMessage m s) = timers s"
  using assms by (simp_all add: handleMessage_def Let_def)

lemma handleMessage_matched:
  assumes "pending_ok s" "map_of (pendingRequests s) r = Some pe" "carries r m"
  shows "handleMessage m s =
     finish r (promise pe) (Fulfilled (rest_without ''requestId'' m))
       (if has_key ''data'' m then s\<lparr>lastSceneState := m\<rparr> else s)"
proof -
  from assms(3) have k: "get_key ''requestId'' m = Some (JStr r)" "has_key ''requestId'' m"
    by (auto simp: carries_def get_key_has_key)
  with assms(2) have "pending_get s (get_key ''requestId'' m) = Some (r, pe)"
    by (simp add: pending_get_Some)
  with k assms(1) show ?thesis
    by (simp add: handleMessage_finish Let_def)
qed

lemma handleMessage_other:
  assumes "pending_ok s" "map_of (pendingRequests s) r = Some pe" "\<not> carries r m"
  shows "map_of (pendingRequests (handleMessage m s)) r = Some pe"
proof (cases "pending_get s (get_key ''requestId'' m)")
  case None
  with assms(2) show ?thesis by (simp add: handleMessage_unmatched)
next
  case (Some a)
  obtain r' pe' where a: "a = (r', pe')" by (cases a)
  with Some have g: "get_key ''requestId'' m = Some (JStr r')" "map_of (pendingRequests s) r' = Some pe'"
    by (simp_all add: pending_get_Some)
  with assms(3) have ne: "r \<noteq> r'" by (auto simp: carries_def)
  from g have "carries r' m" by (simp add: carries_def)
  from handleMessage_matched [OF assms(1) g(2) this] ne assms(2) show ?thesis
    by (simp add: finish_def)
qed

lemma handleMessage_keeps_None:
  "map_of (pendingRequests s) r = None \<Longrightarrow> map_of (pendingRequests (handleMessage m s)) r = None"
  by (auto simp: handleMessage_def Let_def resolve_def clearTimeout_def delete_conv'
      split: option.splits)

lemma settled_prefix_handleMessage: "\<exists>ys. settled (handleMessage m s) = settled s @ ys"
  by (auto simp: handleMessage_def Let_def resolve_def clearTimeout_def split: option.splits)

lemma handleMessage_keeps_settled:
  assumes "promise_state s p = Some v"
  shows "promise_state (handleMessage m s) p = Some v"
proof -
  obtain ys where "settled (handleMessage m s) = settled s @ ys"
    using settled_prefix_handleMessage by blast
  with assms show ?thesis
    by (simp add: promise_state_def map_add_Some_iff)
qed

lemma fold_handleMessage_keeps:
  assumes "map_of (pendingRequests s) r = None" "promise_state s p = Some v"
  shows "map_of (pendingRequests (fold handleMessage ms s)) r = None \<and>
         promise_state (fold handleMessage ms s) p = Some v"
  using assms
  by (induction ms arbitrary: s) (simp_all add: handleMessage_keeps_None handleMessage_keeps_settled)

lemma pending_unsettled:
  "pending_ok s \<Longrightarrow> map_of (pendingRequests s) r = Some pe \<Longrightarrow> promise_state s (promise pe) = None"
  by (auto simp: pending_ok_def promise_state_def map_of_eq_None_iff)

lemma responses_in_any_order:
  assumes "server_inv s" "map_of (pendingRequests s) r = Some pe"
  shows "case find (carries r) ms of
      None \<Rightarrow> map_of (pendingRequests (fold handleMessage ms s)) r = Some pe \<and>
              promise_state (fold handleMessage ms s) (promise pe) = None
    | Some m \<Rightarrow> map_of (pendingRequests (fold handleMessage ms s)) r = None \<and>
              promise_state (fold handleMessage ms s) (promise pe) =
                Some (Fulfilled (rest_without ''requestId'' m))"
  using assms
proof (induction ms arbitrary: s)
  case Nil
  then show ?case by (simp add: pending_unsettled server_inv_def)
next
  case (Cons m ms)
  from Cons.prems have po: "pending_ok s" by (simp add: server_inv_def)
  show ?case
  proof (cases "carries r m")
    case True
    let ?s' = "handleMessage m s"
    from Cons.prems(2) po have u: "promise_state s (promise pe) = None"
      by (simp add: pending_unsettled)
    have h: "?s' = finish r (promise pe) (Fulfilled (rest_without ''requestId'' m))
       (if has_key ''data'' m then s\<lparr>lastSceneState := m\<rparr> else s)"
      by (rule handleMessage_matched [OF po Cons.prems(2) True])
    have 1: "map_of (pendingRequests ?s') r = None"
      by (simp add: h finish_def delete_conv')
    have 2: "promise_state ?s' (promise pe) = Some (Fulfilled (rest_without ''requestId'' m))"
      using u by (simp add: h finish_def promise_state_def map_add_def)
    from fold_handleMessage_keeps [OF 1 2] True show ?thesis by simp
  next
    case False
    have "map_of (pendingRequests (handleMessage m s)) r = Some pe"
      by (rule handleMessage_other [OF po Cons.prems(2) False])
    moreover have "server_inv (handleMessage m s)"
      by (rule inv_handleMessage [OF Cons.prems(1)])
    ultimately show ?thesis
      using Cons.IH [of "handleMessage m s"] False by (simp split: option.splits)
  qed
qed

lemma req_id_small [simp]: "req_id (Suc 0) = ''req_1''" "req_id 1 = ''req_1''" "req_id 2 = ''req_2''"
  "req_id (Suc (Suc 0)) = ''req_2''"
  by (simp_all add: req_id_def show_nat.simps digit_char_def numeral_2_eq_2 [symmetric])

lemma one_pending_eq:
  "one_pending = \<lparr>wss = True, client = Some OPEN,
     pendingRequests = [(''req_1'', \<lparr>promise = 1, timeout = 1\<rparr>)], requestId_ctr = 1,
     lastSceneState = JNull,
     timers = [(1, \<lparr>t_requestId = ''req_1'', t_command = cmd_move, t_promise = 1\<rparr>)],
     settled = [], outbox = [cmd_move\<lparr>requestId := Some ''req_1''\<rparr>]\<rparr>"
  by (simp add: one_pending_def sendCommand_def isConnected_def on_connection_def init_server_def
      Let_def)

lemma two_pending_eq:
  "two_pending = \<lparr>wss = True, client = Some OPEN,
     pendingRequests = [(''req_1'', \<lparr>promise = 1, timeout = 1\<rparr>), (''req_2'', \<lparr>promise = 2, timeout = 2\<rparr>)],
     requestId_ctr = 2, lastSceneState = JNull,
     timers = [(1, \<lparr>t_requestId = ''req_1'', t_command = cmd_move, t_promise = 1\<rparr>),
               (2, \<lparr>t_requestId = ''req_2'', t_command = cmd_scene, t_promise = 2\<rparr>)],
     settled = [],
     outbox = [cmd_move\<lparr>requestId := Some ''req_1''\<rparr>, cmd_scene\<lparr>requestId := Some ''req_2''\<rparr>]\<rparr>"
  by (simp add: two_pending_def one_pending_eq sendCommand_def isConnected_def Let_def)

lemma reachable_one_pending: "reachable one_pending"
  unfolding one_pending_def by (intro reachable.intros)

lemma reachable_two_pending: "reachable two_pending"
  unfolding two_pending_def by (intro reachable.intros reachable_one_pending)

lemma lastSceneState_handleMessage:
  "lastSceneState (handleMessage m s) = (if has_key ''data'' m then m else lastSceneState s)"
  by (simp add: handleMessage_def Let_def resolve_def clearTimeout_def split: option.splits)

text \<open>What the caller gets when an armed timer fires.\<close>

lemma on_timeout_outcome:
  assumes "server_inv s" "map_of (timers s) t = Some c"
  shows "promise_state (on_timeout t s) (t_promise c) =
           Some (if action (t_command c) = ''getFullSceneState'' \<or> action (t_command c) = ''findObjects''
                 then Fulfilled (lastSceneState s) else Rejected ''Command timeout'')"
proof -
  from assms(1) have po: "pending_ok s" and tk: "timers_ok s"
    by (simp_all add: server_inv_def)
  note f = on_timeout_finish [OF po tk assms(2)]
  from f have "map_of (pendingRequests s) (t_requestId c) = Some \<lparr>promise = t_promise c, timeout = t\<rparr>"
    by simp
  from pending_unsettled [OF po this] have "promise_state s (t_promise c) = None" by simp
  then show ?thesis
    using assms(2)
    by (simp add: on_timeout_def Let_def resolve_def reject_def promise_state_def map_add_def)
qed

subsection \<open>Claims about the request correlator\<close>

text \<open>
  C1 (as the code has it). Whatever requests are outstanding in a reachable state, and in
  whatever order response envelopes arrive: a pending request \<open>r\<close> is fulfilled by the
  first message carrying the identifier \<open>r\<close>, with that message's payload minus the
  identifier, and stays pending and unsettled while no such message has arrived (first
  conjunct, over any list \<open>ms\<close> of inbound messages); a matching message removes exactly
  the entry of its identifier, clears that entry's timer and settles that entry's promise
  (second conjunct). A message whose identifier has no pending entry settles nothing and
  leaves the table and the timers as they were, but it is not without effect: if it has a
  \<open>data\<close> field it becomes the value of \<open>lastSceneState\<close> (third conjunct), and that
  is what a request for \<open>getFullSceneState\<close> or \<open>findObjects\<close> that is still pending
  is fulfilled with when its timer fires afterwards (fourth conjunct).
\<close>

theorem response_matches_its_request:
  assumes "reachable s"
  shows "(\<forall>r pe ms. map_of (pendingRequests s) r = Some pe \<longrightarrow>
            (case find (carries r) ms of
               None \<Rightarrow> map_of (pendingRequests (fold handleMessage ms s)) r = Some pe \<and>
                       promise_state (fold handleMessage ms s) (promise pe) = None
             | Some m \<Rightarrow> map_of (pendingRequests (fold handleMessage ms s)) r = None \<and>
                       promise_state (fold handleMessage ms s) (promise pe) =
                         Some (Fulfilled (rest_without ''requestId'' m)))) \<and>
         (\<forall>r pe m. map_of (pendingRequests s) r = Some pe \<and> carries r m \<longrightarrow>
            pendingRequests (handleMessage m s) = AList.delete r (pendingRequests s) \<and>
            timers (handleMessage m s) = AList.delete (timeout pe) (timers s) \<and>
            settled (handleMessage m s) =
              settled s @ [(promise pe, Fulfilled (rest_without ''requestId'' m))]) \<and>
         (\<forall>m. pending_get s (get_key ''requestId'' m) = None \<longrightarrow>
            pendingRequests (handleMessage m s) = pendingRequests s \<and>
            timers (handleMessage m s) = timers s \<and>
            settled (handleMessage m s) = settled s \<and>
            lastSceneState (handleMessage m s) =
              (if has_key ''data'' m then m else lastSceneState s)) \<and>
         (\<forall>m t c. pending_get s (get_key ''requestId'' m) = None \<and>
              map_of (timers s) t = Some c \<longrightarrow>
            promise_state (handleMessage m s) (t_promise c) = None \<and>
            promise_state (on_timeout t (handleMessage m s)) (t_promise c) =
              Some (if action (t_command c) = ''getFullSceneState'' \<or>
                       action (t_command c) = ''findObjects''
                    then Fulfilled (if has_key ''data'' m then m else lastSceneState s)
                    else Rejected ''Command timeout''))"
proof -
  from assms have inv: "server_inv s" by (rule reachable_inv)
  then have po: "pending_ok s" by (simp add: server_inv_def)
  have 1: "case find (carries r) ms of
               None \<Rightarrow> map_of (pendingRequests (fold handleMessage ms s)) r = Some pe \<and>
                       promise_state (fold handleMessage ms s) (promise pe) = None
             | Some m \<Rightarrow> map_of (pendingRequests (fold handleMessage ms s)) r = None \<and>
                       promise_state (fold handleMessage ms s) (promise pe) =
                         Some (Fulfilled (rest_without ''requestId'' m))"
    if "map_of (pendingRequests s) r = Some pe" for r pe ms
    by (rule responses_in_any_order [OF inv that])
  have 2: "pendingRequests (handleMessage m s) = AList.delete r (pendingRequests s) \<and>
            timers (handleMessage m s) = AList.delete (timeout pe) (timers s) \<and>
            settled (handleMessage m s) =
              settled s @ [(promise pe, Fulfilled (rest_without ''requestId'' m))]"
    if "map_of (pendingRequests s) r = Some pe" "carries r m" for r pe m
  proof -
    from po that(1) have "timeout pe = promise pe" by (auto simp: pending_ok_def)
    then show ?thesis
      by (simp add: handleMessage_matched [OF po that] finish_def)
  qed
  have 3: "pendingRequests (handleMessage m s) = pendingRequests s \<and>
            timers (handleMessage m s) = timers s \<and>
            settled (handleMessage m s) = settled s \<and>
            lastSceneState (handleMessage m s) =
              (if has_key ''data'' m then m else lastSceneState s)"
    if "pending_get s (get_key ''requestId'' m) = None" for m
    using that by (simp add: handleMessage_unmatched lastSceneState_handleMessage)
  have 4: "promise_state (handleMessage m s) (t_promise c) = None \<and>
            promise_state (on_timeout t (handleMessage m s)) (t_promise c) =
              Some (if action (t_command c) = ''getFullSceneState'' \<or>
                       action (t_command c) = ''findObjects''
                    then Fulfilled (if has_key ''data'' m then m else lastSceneState s)
                    else Rejected ''Command timeout'')"
    if u: "pending_get s (get_key ''requestId'' m) = None" and a: "map_of (timers s) t = Some c"
    for m t c
  proof -
    let ?s' = "handleMessage m s"
    have i': "server_inv ?s'" by (rule inv_handleMessage [OF inv])
    from u a have a': "map_of (timers ?s') t = Some c"
      by (simp add: handleMessage_unmatched)
    from i' have po': "pending_ok ?s'" and tk': "timers_ok ?s'"
      by (simp_all add: server_inv_def)
    from on_timeout_finish [OF po' tk' a']
    have "map_of (pendingRequests ?s') (t_requestId c) = Some \<lparr>promise = t_promise c, timeout = t\<rparr>"
      by simp
    from pending_unsettled [OF po' this] have "promise_state ?s' (t_promise c) = None" by simp
    with on_timeout_outcome [OF i' a'] show ?thesis
      by (simp only: lastSceneState_handleMessage)
  qed
  from 1 2 3 4 show ?thesis by blast
qed

theorem response_matches_its_request_witness:
  "reachable two_pending \<and>
   map_of (pendingRequests two_pending) ''req_1'' = Some \<lparr>promise = 1, timeout = 1\<rparr> \<and>
   promise_state (fold handleMessage [reply ''req_2'' 20, reply ''req_9'' 90, reply ''req_1'' 10,
       reply ''req_1'' 11] two_pending) 1
     = Some (Fulfilled (JObj [(''success'', JBool True), (''value'', JNum 10)])) \<and>
   pendingRequests (handleMessage (reply ''req_9'' 90) two_pending) = pendingRequests two_pending \<and>
   lastSceneState (handleMessage (reply ''req_9'' 90) two_pending) = JNull"
proof -
  have p: "map_of (pendingRequests two_pending) ''req_1'' = Some \<lparr>promise = 1, timeout = 1\<rparr>"
    by (simp add: two_pending_eq)
  have u: "pending_get two_pending (get_key ''requestId'' (reply ''req_9'' 90)) = None"
    by (simp add: two_pending_eq reply_def)
  note t = response_matches_its_request [OF reachable_two_pending]
  from t p have "case find (carries ''req_1'') [reply ''req_2'' 20, reply ''req_9'' 90, reply ''req_1'' 10,
       reply ''req_1'' 11] of
               None \<Rightarrow> map_of (pendingRequests (fold handleMessage [reply ''req_2'' 20, reply ''req_9'' 90, reply ''req_1'' 10,
       reply ''req_1'' 11] two_pending)) ''req_1'' = Some \<lparr>promise = 1, timeout = 1\<rparr> \<and>
                       promise_state (fold handleMessage [reply ''req_2'' 20, reply ''req_9'' 90, reply ''req_1'' 10,
       reply ''req_1'' 11] two_pending) (promise \<lparr>promise = 1, timeout = 1\<rparr>) = None
             | Some m \<Rightarrow> map_of (pendingRequests (fold handleMessage [reply ''req_2'' 20, reply ''req_9'' 90, reply ''req_1'' 10,
       reply ''req_1'' 11] two_pending)) ''req_1'' = None \<and>
                       promise_state (fold handleMessage [reply ''req_2'' 20, reply ''req_9'' 90, reply ''req_1'' 10,
       reply ''req_1'' 11] two_pending) (promise \<lparr>promise = 1, timeout = 1\<rparr>) =
                         Some (Fulfilled (rest_without ''requestId'' m))"
    by blast
  then have a: "promise_state (fold handleMessage [reply ''req_2'' 20, reply ''req_9'' 90, reply ''req_1'' 10,
       reply ''req_1'' 11] two_pending) 1
     = Some (Fulfilled (JObj [(''success'', JBool True), (''value'', JNum 10)]))"
    by (simp add: carries_def reply_def)
  from t u have b: "pendingRequests (handleMessage (reply ''req_9'' 90) two_pending) = pendingRequests two_pending"
    by blast
  from t u have "lastSceneState (handleMessage (reply ''req_9'' 90) two_pending) =
      (if has_key ''data'' (reply ''req_9'' 90) then reply ''req_9'' 90 else lastSceneState two_pending)"
    by blast
  then have c: "lastSceneState (handleMessage (reply ''req_9'' 90) two_pending) = JNull"
    by (simp add: reply_def two_pending_eq)
  from reachable_two_pending p a b c show ?thesis by blast
qed

text \<open>
  The first request has timed out and its reply arrives late. The reply settles nothing,
  but the second request, a pending \<open>getFullSceneState\<close>, is then fulfilled with that
  reply when its own timer fires, where it would have got the empty cache without it.
\<close>

theorem late_response_reaches_other_request_counterexample:
  "promise_state (on_timeout 1 two_pending) 1 = Some (Rejected ''Command timeout'') \<and>
   pending_get (on_timeout 1 two_pending) (get_key ''requestId'' late_reply) = None \<and>
   map_of (pendingRequests (handleMessage late_reply (on_timeout 1 two_pending))) ''req_2'' =
     Some \<lparr>promise = 2, timeout = 2\<rparr> \<and>
   promise_state (on_timeout 2 (on_timeout 1 two_pending)) 2 = Some (Fulfilled JNull) \<and>
   promise_state (on_timeout 2 (handleMessage late_reply (on_timeout 1 two_pending))) 2 =
     Some (Fulfilled late_reply)"
  by (simp add: two_pending_eq on_timeout_def handleMessage_def Let_def resolve_def reject_def
      clearTimeout_def promise_state_def cmd_move_def cmd_scene_def late_reply_def)

text \<open>
  C4. While no client connection is open, \<open>sendCommand\<close> throws the not-connected error
  and the whole state, in particular the pending-request table and the identifier counter,
  is what it was before the call.
\<close>

theorem sendCommand_not_connected:
  "\<not> isConnected s \<Longrightarrow> sendCommand command tx s = (Inl ''No game client connected'', s)"
  by (simp add: sendCommand_def)

theorem sendCommand_not_connected_witness:
  "\<not> isConnected (on_ws_close one_pending) \<and>
   sendCommand cmd_move None (on_ws_close one_pending) =
     (Inl ''No game client connected'', on_ws_close one_pending) \<and>
   pendingRequests (snd (sendCommand cmd_move None (on_ws_close one_pending))) =
     [(''req_1'', \<lparr>promise = 1, timeout = 1\<rparr>)] \<and>
   requestId_ctr (snd (sendCommand cmd_move None (on_ws_close one_pending))) = 1"
proof -
  have n: "\<not> isConnected (on_ws_close one_pending)"
    by (simp add: isConnected_def on_ws_close_def)
  from sendCommand_not_connected [OF n, of cmd_move None] n show ?thesis
    by (simp add: on_ws_close_def one_pending_eq)
qed

text \<open>
  C10. When handing the frame to the socket throws inside \<open>sendCommand\<close> on an open
  connection, the timer just armed is cleared, the entry just registered is deleted and the
  returned promise is rejected with the error thrown: the pending-request table and the set
  of armed timers are those from before the call.
\<close>

theorem failed_send_leaves_no_entry:
  assumes "reachable s" "isConnected s"
  shows "fst (sendCommand command (Some e) s) = Inr (requestId_ctr s + 1) \<and>
         pendingRequests (snd (sendCommand command (Some e) s)) = pendingRequests s \<and>
         timers (snd (sendCommand command (Some e) s)) = timers s \<and>
         map_of (timers (snd (sendCommand command (Some e) s))) (requestId_ctr s + 1) = None \<and>
         map_of (pendingRequests (snd (sendCommand command (Some e) s))) (req_id (requestId_ctr s + 1)) = None \<and>
         settled (snd (sendCommand command (Some e) s)) = settled s @ [(requestId_ctr s + 1, Rejected e)] \<and>
         promise_state (snd (sendCommand command (Some e) s)) (requestId_ctr s + 1) = Some (Rejected e)"
proof -
  let ?n = "requestId_ctr s + 1"
  from assms(1) have inv: "server_inv s" by (rule reachable_inv)
  then have po: "pending_ok s" and tk: "timers_ok s" and so: "settled_ok s"
    by (simp_all add: server_inv_def)
  have fr: "map_of (pendingRequests s) (req_id ?n) = None" "map_of (timers s) ?n = None"
    using pending_fresh [OF po, of ?n] timer_fresh [OF tk po, of ?n] by simp_all
  then have nk: "req_id ?n \<notin> fst ` set (pendingRequests s)" "?n \<notin> fst ` set (timers s)"
    by (simp_all add: map_of_eq_None_iff)
  from so have ns: "?n \<notin> fst ` set (settled s)"
    by (fastforce simp: settled_ok_def)
  have p: "pendingRequests (snd (sendCommand command (Some e) s)) = pendingRequests s"
    using assms(2) nk(1)
    by (simp add: sendCommand_eq finish_def registered_def Let_def delete_update_same)
  have t: "timers (snd (sendCommand command (Some e) s)) = timers s"
    using assms(2) nk(2)
    by (simp add: sendCommand_eq finish_def registered_def Let_def delete_update_same)
  have l: "settled (snd (sendCommand command (Some e) s)) = settled s @ [(?n, Rejected e)]"
    using assms(2) by (simp add: sendCommand_eq finish_def registered_def Let_def)
  have "map_of (settled s) ?n = None"
    using ns by (simp add: map_of_eq_None_iff)
  then have ps: "promise_state (snd (sendCommand command (Some e) s)) ?n = Some (Rejected e)"
    by (simp add: promise_state_def l map_add_def)
  have f: "fst (sendCommand command (Some e) s) = Inr ?n"
    using assms(2) by (simp add: sendCommand_eq)
  from f p t l ps fr show ?thesis by simp
qed

theorem failed_send_leaves_no_entry_witness:
  "reachable one_pending \<and> isConnected one_pending \<and>
   sendCommand cmd_scene (Some ''socket error'') one_pending =
     (Inr 2, one_pending\<lparr>requestId_ctr := 2, settled := [(2, Rejected ''socket error'')]\<rparr>) \<and>
   pendingRequests (snd (sendCommand cmd_scene (Some ''socket error'') one_pending)) =
     pendingRequests one_pending"
proof -
  have c: "isConnected one_pending"
    by (simp add: isConnected_def one_pending_eq)
  have "sendCommand cmd_scene (Some ''socket error'') one_pending =
     (Inr 2, one_pending\<lparr>requestId_ctr := 2, settled := [(2, Rejected ''socket error'')]\<rparr>)"
    by (simp add: sendCommand_def isConnected_def Let_def one_pending_eq reject_def clearTimeout_def)
  with failed_send_leaves_no_entry [OF reachable_one_pending c, of cmd_scene "''socket error''"]
    reachable_one_pending c show ?thesis by simp
qed

text \<open>
  C2. An armed timer belongs to a request that is still pending and unsettled. When it
  fires, the entry is removed, and the caller is fulfilled with the current value of
  \<open>lastSceneState\<close> if the action of the command is \<open>getFullSceneState\<close> or
  \<open>findObjects\<close>, and rejected with the timeout error for every other action.
\<close>

theorem timeout_policy:
  assumes "reachable s" "map_of (timers s) t = Some c"
  shows "map_of (pendingRequests s) (t_requestId c) = Some \<lparr>promise = t_promise c, timeout = t\<rparr> \<and>
         promise_state s (t_promise c) = None \<and>
         map_of (pendingRequests (on_timeout t s)) (t_requestId c) = None \<and>
         map_of (timers (on_timeout t s)) t = None \<and>
         promise_state (on_timeout t s) (t_promise c) =
           Some (if action (t_command c) = ''getFullSceneState'' \<or> action (t_command c) = ''findObjects''
                 then Fulfilled (lastSceneState s) else Rejected ''Command timeout'')"
proof -
  from assms(1) have inv: "server_inv s" by (rule reachable_inv)
  then have po: "pending_ok s" and tk: "timers_ok s"
    by (simp_all add: server_inv_def)
  note f = on_timeout_finish [OF po tk assms(2)]
  from f have 1: "map_of (pendingRequests s) (t_requestId c) = Some \<lparr>promise = t_promise c, timeout = t\<rparr>"
    by simp
  from pending_unsettled [OF po 1] have 2: "promise_state s (t_promise c) = None" by simp
  then have 5: "promise_state (on_timeout t s) (t_promise c) =
           Some (if action (t_command c) = ''getFullSceneState'' \<or> action (t_command c) = ''findObjects''
                 then Fulfilled (lastSceneState s) else Rejected ''Command timeout'')"
    using assms(2)
    by (simp add: on_timeout_def Let_def resolve_def reject_def promise_state_def map_add_def)
  have 3: "map_of (pendingRequests (on_timeout t s)) (t_requestId c) = None"
    using assms(2) by (simp add: on_timeout_def Let_def resolve_def reject_def delete_conv')
  have 4: "map_of (timers (on_timeout t s)) t = None"
    using assms(2) by (simp add: on_timeout_def Let_def resolve_def reject_def delete_conv')
  from 1 2 3 4 5 show ?thesis by simp
qed

theorem timeout_policy_witness:
  "reachable two_pending \<and>
   map_of (timers two_pending) 1 = Some \<lparr>t_requestId = ''req_1'', t_command = cmd_move, t_promise = 1\<rparr> \<and>
   map_of (timers two_pending) 2 = Some \<lparr>t_requestId = ''req_2'', t_command = cmd_scene, t_promise = 2\<rparr> \<and>
   promise_state (on_timeout 1 two_pending) 1 = Some (Rejected ''Command timeout'') \<and>
   promise_state (on_timeout 2 two_pending) 2 = Some (Fulfilled JNull) \<and>
   map_of (pendingRequests (on_timeout 1 two_pending)) ''req_1'' = None \<and>
   map_of (pendingRequests (on_timeout 2 two_pending)) ''req_2'' = None"
proof -
  have a: "map_of (timers two_pending) 1 = Some \<lparr>t_requestId = ''req_1'', t_command = cmd_move, t_promise = 1\<rparr>"
    and b: "map_of (timers two_pending) 2 = Some \<lparr>t_requestId = ''req_2'', t_command = cmd_scene, t_promise = 2\<rparr>"
    by (simp_all add: two_pending_eq)
  have l: "lastSceneState two_pending = JNull" by (simp add: two_pending_eq)
  from timeout_policy [OF reachable_two_pending a] timeout_policy [OF reachable_two_pending b]
    reachable_two_pending a b l
  show ?thesis by (simp add: cmd_move_def cmd_scene_def)
qed

lemma sendCommand_arms_timer:
  assumes "isConnected s"
  shows "sendCommand command None s = (Inr p, s') \<Longrightarrow>
     p = requestId_ctr s + 1 \<and>
     map_of (timers s') p = Some \<lparr>t_requestId = req_id p, t_command = command, t_promise = p\<rparr> \<and>
     map_of (pendingRequests s') (req_id p) = Some \<lparr>promise = p, timeout = p\<rparr> \<and>
     outbox s' = outbox s @ [command\<lparr>requestId := Some (req_id p)\<rparr>]"
  using assms by (auto simp: sendCommand_eq registered_def Let_def update_conv')

text \<open>
  The closure of an armed timer never changes: after any event the timer is armed with the
  command it was armed with by \<open>sendCommand\<close>, or it is no longer armed.
\<close>

lemma armed_timer_stable:
  assumes "reachable s" "map_of (timers s) t = Some c"
  shows "map_of (timers (handleMessage m s)) t \<in> {None, Some c}"
    and "map_of (timers (snd (sendCommand command tx s))) t \<in> {None, Some c}"
    and "map_of (timers (on_timeout t' s)) t \<in> {None, Some c}"
    and "map_of (timers (close s)) t \<in> {None, Some c}"
    and "map_of (timers (on_ws_close s)) t = Some c"
    and "map_of (timers (on_connection s)) t = Some c"
proof -
  from assms(1) have inv: "server_inv s" by (rule reachable_inv)
  then have po: "pending_ok s" and tk: "timers_ok s" by (simp_all add: server_inv_def)
  show "map_of (timers (handleMessage m s)) t \<in> {None, Some c}"
    using assms(2)
    by (auto simp: handleMessage_def Let_def resolve_def clearTimeout_def delete_conv'
        split: option.splits)
  have "t \<noteq> requestId_ctr s + 1"
    using timer_fresh [OF tk po, of "requestId_ctr s + 1"] assms(2) by auto
  then show "map_of (timers (snd (sendCommand command tx s))) t \<in> {None, Some c}"
    using assms(2)
    by (auto simp: sendCommand_eq registered_def finish_def Let_def update_conv' delete_conv'
        split: option.splits)
  show "map_of (timers (on_timeout t' s)) t \<in> {None, Some c}"
    using assms(2)
    by (auto simp: on_timeout_def Let_def resolve_def reject_def delete_conv' split: option.splits)
  show "map_of (timers (close s)) t \<in> {None, Some c}"
    using assms(2) by (simp add: close_eq map_of_fold_delete)
  show "map_of (timers (on_ws_close s)) t = Some c" "map_of (timers (on_connection s)) t = Some c"
    using assms(2) by (simp_all add: on_ws_close_def on_connection_def)
qed

text \<open>
  The \<open>'close'\<close> handler of the client socket only forgets the socket: after a client
  has disconnected, the request sent before is still in the table and its promise is not
  settled.
\<close>

theorem client_disconnect_keeps_pending_counterexample:
  "\<not> isConnected (on_ws_close one_pending) \<and>
   pendingRequests (on_ws_close one_pending) = [(''req_1'', \<lparr>promise = 1, timeout = 1\<rparr>)] \<and>
   settled (on_ws_close one_pending) = [] \<and>
   promise_state (on_ws_close one_pending) 1 = None"
  by (simp add: on_ws_close_def one_pending_eq isConnected_def promise_state_def)

text \<open>
  C3 (as the code has it). \<open>close()\<close> rejects every pending request with the error
  \<open>Server closed\<close>, one rejection per entry and no promise settled twice, clears every
  timer and empties the table. The disconnection of the client alone leaves the table, the
  timers and the promises untouched: those requests end by their own deadlines.
\<close>

theorem close_rejects_all_pending:
  assumes "reachable s"
  shows "pendingRequests (close s) = [] \<and>
         settled (close s) =
           settled s @ map (\<lambda>kv. (promise (snd kv), Rejected ''Server closed'')) (pendingRequests s) \<and>
         length (settled (close s)) = length (settled s) + length (pendingRequests s) \<and>
         distinct (map fst (settled (close s))) \<and>
         (\<forall>kv \<in> set (pendingRequests s).
            promise_state s (promise (snd kv)) = None \<and>
            promise_state (close s) (promise (snd kv)) = Some (Rejected ''Server closed'')) \<and>
         (\<forall>t. map_of (timers (close s)) t = None) \<and>
         pendingRequests (on_ws_close s) = pendingRequests s \<and>
         settled (on_ws_close s) = settled s \<and>
         timers (on_ws_close s) = timers s"
proof -
  from assms have inv: "server_inv s" by (rule reachable_inv)
  then have po: "pending_ok s" and d: "distinct (map fst (pendingRequests s))"
    by (simp_all add: server_inv_def)
  have ic: "server_inv (close s)" by (rule inv_close [OF inv])
  have 1: "pendingRequests (close s) = []" by (simp add: close_eq)
  have 2: "settled (close s) =
           settled s @ map (\<lambda>kv. (promise (snd kv), Rejected ''Server closed'')) (pendingRequests s)"
    by (simp add: close_eq)
  have 3: "distinct (map fst (settled (close s)))"
    using ic by (simp add: server_inv_def settled_ok_def)
  have 4: "promise_state s (promise (snd kv)) = None \<and>
            promise_state (close s) (promise (snd kv)) = Some (Rejected ''Server closed'')"
    if "kv \<in> set (pendingRequests s)" for kv
  proof -
    from that d have m: "map_of (pendingRequests s) (fst kv) = Some (snd kv)" by simp
    from pending_unsettled [OF po m] have u: "promise_state s (promise (snd kv)) = None" .
    from that have "(promise (snd kv), Rejected ''Server closed'') \<in> set (settled (close s))"
      by (auto simp: 2)
    with 3 have "map_of (settled (close s)) (promise (snd kv)) = Some (Rejected ''Server closed'')"
      by simp
    with u show ?thesis by (simp add: promise_state_def)
  qed
  have 5: "map_of (timers (close s)) t = None" for t
  proof (rule ccontr)
    assume "map_of (timers (close s)) t \<noteq> None"
    then obtain c where "map_of (timers (close s)) t = Some c" by auto
    with ic have "map_of (pendingRequests (close s)) (t_requestId c) \<noteq> None"
      by (auto simp: server_inv_def timers_ok_def)
    with 1 show False by simp
  qed
  have 6: "pendingRequests (on_ws_close s) = pendingRequests s \<and>
         settled (on_ws_close s) = settled s \<and> timers (on_ws_close s) = timers s"
    by (simp add: on_ws_close_def)
  from 1 2 3 4 5 6 show ?thesis by simp
qed

theorem close_rejects_all_pending_witness:
  "reachable two_pending \<and> length (pendingRequests two_pending) = 2 \<and>
   pendingRequests (close two_pending) = [] \<and>
   settled (close two_pending) = [(1, Rejected ''Server closed''), (2, Rejected ''Server closed'')] \<and>
   promise_state (close two_pending) 1 = Some (Rejected ''Server closed'') \<and>
   promise_state (close two_pending) 2 = Some (Rejected ''Server closed'') \<and>
   timers (close two_pending) = []"
proof -
  have "timers (close two_pending) = []"
    by (simp add: close_def close_entry_def reject_def clearTimeout_def two_pending_eq)
  with close_rejects_all_pending [OF reachable_two_pending] reachable_two_pending
  show ?thesis by (simp add: two_pending_eq)
qed

text \<open>
  A response envelope that has a \<open>data\<close> field replaces the cached value, although it
  carries a \<open>requestId\<close>.
\<close>

theorem response_overwrites_cache_counterexample:
  "has_key ''requestId'' scene_reply \<and>
   lastSceneState one_pending = JNull \<and>
   lastSceneState (handleMessage scene_reply one_pending) = scene_reply"
  by (simp add: scene_reply_def handleMessage_def one_pending_eq Let_def resolve_def clearTimeout_def)

text \<open>
  C8 (as the code has it). After any sequence of inbound messages the cache holds the most
  recent message with a \<open>data\<close> field, whether or not that message carries a
  \<open>requestId\<close>; if there was none, the cache is unchanged.
\<close>

theorem cache_holds_last_data_message:
  "lastSceneState (fold handleMessage ms s) =
     (case find (has_key ''data'') (rev ms) of None \<Rightarrow> lastSceneState s | Some m \<Rightarrow> m)"
  by (induction ms rule: rev_induct) (simp_all add: lastSceneState_handleMessage)

theorem cache_holds_last_data_message_witness:
  "lastSceneState (fold handleMessage
      [JObj [(''data'', JNum 1)], scene_reply, JObj [(''requestId'', JStr ''req_2''), (''success'', JBool True)]]
      two_pending) = scene_reply"
  using cache_holds_last_data_message [of "[JObj [(''data'', JNum 1)], scene_reply,
      JObj [(''requestId'', JStr ''req_2''), (''success'', JBool True)]]" two_pending]
  by (simp add: scene_reply_def)

section \<open>Runtime side: proofs\<close>

lemma nid_modify [simp]: "nid (modify i f n) = nid n"
  by (cases n) simp

lemma obj_modify: "obj (modify i f n) = (if nid n = i then f (obj n) else obj n)"
  by (cases n) simp

lemma nodes_modify: "nodes (modify i f t) = map (modify i f) (nodes t)"
proof (induction t rule: nodes.induct)
  case (1 j ob cs)
  then have "map (\<lambda>c. nodes (modify i f c)) cs = map (\<lambda>c. map (modify i f) (nodes c)) cs"
    by simp
  then have "concat (map nodes (map (modify i f) cs)) = map (modify i f) (concat (map nodes cs))"
    by (simp only: map_concat map_map comp_def)
  then show ?case
    by simp
qed

lemma find_map_option: "find P (map g xs) = map_option g (find (\<lambda>x. P (g x)) xs)"
  by (induction xs) simp_all

lemma getActiveCamera_modify_world:
  assumes "\<And>ob. isCamera (f ob) = isCamera ob"
  shows "getActiveCamera (modify_world i f b) = map_option (modify i f) (getActiveCamera b)"
proof -
  have "(\<lambda>n. isCamera (obj (modify i f n))) = (\<lambda>n. isCamera (obj n))"
    by (auto simp: obj_modify assms)
  then show ?thesis
    by (simp add: getActiveCamera_def modify_world_def nodes_modify find_map_option)
qed

lemma find_Some_P: "find P xs = Some x \<Longrightarrow> P x"
  by (induction xs) (auto split: if_splits)

lemma isCamera_lerp_lens [simp]: "isCamera (lerp_lens tw t ob) = isCamera ob"
  by (simp add: lerp_lens_def Let_def split: option.splits)

lemma position_lerp_lens [simp]: "position (lerp_lens tw t ob) = position ob"
  by (simp add: lerp_lens_def Let_def split: option.splits)

lemma getActiveCamera_cameraLookAt [simp]:
  "getActiveCamera (b\<lparr>cameraLookAt := v\<rparr>) = getActiveCamera b"
  "getActiveCamera (b\<lparr>cameraTween := w\<rparr>) = getActiveCamera b"
  by (simp_all add: getActiveCamera_def)

lemma modify_world_fields [simp]:
  "cameraTween (modify_world i f b) = cameraTween b"
  "cameraLookAt (modify_world i f b) = cameraLookAt b"
  "modify_world i f (b\<lparr>cameraLookAt := v\<rparr>) = (modify_world i f b)\<lparr>cameraLookAt := v\<rparr>"
  by (simp_all add: modify_world_def)

lemma camera_position_update:
  assumes "cameraTween b = Some tw" "getActiveCamera b = Some camera"
  shows "camera_position (update now b) =
           Some (lerpVectors (tw_from tw) (tw_to tw) (tween_t tw now))"
proof -
  let ?p = "lerpVectors (tw_from tw) (tw_to tw) (tween_t tw now)"
  let ?b1 = "modify_world (nid camera) (\<lambda>ob. ob\<lparr>position := ?p\<rparr>) b"
  have c1: "getActiveCamera ?b1 = Some (modify (nid camera) (\<lambda>ob. ob\<lparr>position := ?p\<rparr>) camera)"
    using assms(2) by (simp add: getActiveCamera_modify_world)
  then have p1: "camera_position ?b1 = Some ?p"
    by (simp add: camera_position_def obj_modify)
  have c3: "camera_position (modify_world (nid camera) (lerp_lens tw (tween_t tw now)) b') = camera_position b'"
    for b'
  proof -
    have "(\<lambda>n. position (obj (modify (nid camera) (lerp_lens tw (tween_t tw now)) n))) =
          (\<lambda>n. position (obj n))"
      by (rule ext) (simp add: obj_modify)
    then show ?thesis
      by (simp add: camera_position_def getActiveCamera_modify_world option.map_comp comp_def)
  qed
  have l: "camera_position (b'\<lparr>cameraLookAt := v\<rparr>) = camera_position b'" 
    "camera_position (b'\<lparr>cameraTween := w\<rparr>) = camera_position b'" for b' v w
    by (simp_all add: camera_position_def)
  show ?thesis
    using assms p1
    by (simp add: update_def Let_def c3 l split: option.splits)
qed

lemma cameraTween_update:
  assumes "cameraTween b = Some tw" "getActiveCamera b = Some camera"
  shows "cameraTween (update now b) = (if tween_t tw now \<ge> 1 then None else Some tw)"
  using assms by (simp add: update_def Let_def split: option.splits)

lemma tween_t_pos: "0 < duration tw \<Longrightarrow> tween_t tw now = min 1 ((now - startTime tw) / duration tw)"
  by (simp add: tween_t_def Let_def max_def)

text \<open>
  C7. \<open>startTime\<close> and \<open>now\<close> are both readings of the clock \<open>performance.now()\<close>,
  which never runs backwards, so a tick of an active transition has
  \<open>startTime \<le> now\<close>. For every such tick of a transition with positive duration, the
  interpolation parameter is \<open>clamp ((now - startTime) / duration) 0 1\<close> and the camera of the
  scene is put at the per-axis linear interpolation of \<open>from\<close> and \<open>to\<close> at that
  parameter; from \<open>startTime + duration\<close> on, the parameter is 1 and the transition is
  cleared; with duration 2000 and \<open>now = startTime + 1000\<close> the parameter is \<open>1/2\<close> and
  the camera is at the midpoint of \<open>from\<close> and \<open>to\<close> on each axis. Before
  \<open>startTime + duration\<close> the transition stays active.
\<close>

theorem transition_tick:
  assumes "cameraTween b = Some tw" "0 < duration tw" "startTime tw \<le> now"
  shows "tween_t tw now = max 0 (min 1 ((now - startTime tw) / duration tw)) \<and>
         (\<forall>camera. getActiveCamera b = Some camera \<longrightarrow>
            camera_position (update now b) =
              Some (lerpVectors (tw_from tw) (tw_to tw) (tween_t tw now))) \<and>
         (startTime tw + duration tw \<le> now \<longrightarrow>
            tween_t tw now = 1 \<and> cameraTween (update now b) = None) \<and>
         (duration tw = 2000 \<and> now = startTime tw + 1000 \<longrightarrow>
            tween_t tw now = 1 / 2 \<and>
            (\<forall>camera. getActiveCamera b = Some camera \<longrightarrow>
               camera_position (update now b) =
                 Some (case tw_from tw of (x1, y1, z1) \<Rightarrow> (case tw_to tw of (x2, y2, z2) \<Rightarrow>
                   ((x1 + x2) / 2, (y1 + y2) / 2, (z1 + z2) / 2))))) \<and>
         (\<forall>camera. getActiveCamera b = Some camera \<and> now < startTime tw + duration tw \<longrightarrow>
            cameraTween (update now b) = Some tw)"
proof -
  note t = tween_t_pos [OF assms(2), of now]
  have 1: "tween_t tw now = max 0 (min 1 ((now - startTime tw) / duration tw))"
    using assms(2,3) by (simp add: t)
  have late: "tween_t tw now = 1" if "startTime tw + duration tw \<le> now"
  proof -
    from that assms(2) have "1 \<le> (now - startTime tw) / duration tw"
      by (simp add: field_simps)
    then show ?thesis by (simp add: t)
  qed
  have early: "tween_t tw now < 1" if "now < startTime tw + duration tw"
  proof -
    from that assms(2) have "(now - startTime tw) / duration tw < 1"
      by (simp add: field_simps)
    then show ?thesis by (simp add: t)
  qed
  have half: "tween_t tw now = 1 / 2" if "duration tw = 2000" "now = startTime tw + 1000"
    using that assms(2) by (simp add: tween_t_pos)
  have mid: "lerpVectors v w (1 / 2) =
     (case v of (x1, y1, z1) \<Rightarrow> (case w of (x2, y2, z2) \<Rightarrow>
                     ((x1 + x2) / 2, (y1 + y2) / 2, (z1 + z2) / 2)))" for v w
    by (simp add: lerpVectors_def field_simps split: prod.splits)
  have p: "camera_position (update now b) =
      Some (lerpVectors (tw_from tw) (tw_to tw) (tween_t tw now))"
    if "getActiveCamera b = Some camera" for camera
    by (rule camera_position_update [OF assms(1) that])
  have cleared: "cameraTween (update now b) = None" if l: "startTime tw + duration tw \<le> now"
  proof (cases "getActiveCamera b")
    case None
    with assms(1) show ?thesis by (simp add: update_def)
  next
    case (Some camera)
    from cameraTween_update [OF assms(1) Some, of now] late [OF l] show ?thesis by simp
  qed
  have stays: "cameraTween (update now b) = Some tw"
    if "getActiveCamera b = Some camera" "now < startTime tw + duration tw" for camera
    using cameraTween_update [OF assms(1) that(1), of now] early [OF that(2)] by simp
  have 4: "camera_position (update now b) =
      Some (case tw_from tw of (x1, y1, z1) \<Rightarrow> (case tw_to tw of (x2, y2, z2) \<Rightarrow>
        ((x1 + x2) / 2, (y1 + y2) / 2, (z1 + z2) / 2)))"
    if "duration tw = 2000 \<and> now = startTime tw + 1000" "getActiveCamera b = Some camera"
    for camera
  proof -
    from that(1) have h: "tween_t tw now = 1 / 2" using half by simp
    show ?thesis by (simp only: p [OF that(2)] h mid)
  qed
  from 1 p late cleared half 4 stays show ?thesis by blast
qed

lemma demo_camera: "getActiveCamera demo_moving = Some (Node 1 (camera_obj ''cam'' (0, 0, 0)) [])"
  by (simp add: getActiveCamera_def demo_moving_def demo_def demo_scene_def camera_obj_def plain_def)

lemma demo_moving_via_command:
  "setCameraPosition demo_env
     \<lparr>action = ''setCameraPosition'', requestId = None,
      args = [(''position'', JArr [JNum 10, JNum 4, JNum (-2)]), (''animate'', JBool True),
              (''duration'', JNum 2000)]\<rparr> demo = Returns success demo_moving"
  by (simp add: setCameraPosition_def getActiveCamera_def demo_def demo_scene_def camera_obj_def
      plain_def field_def returns_def moveCamera_def Let_def demo_env_def demo_moving_def
      demo_tween_def)

theorem transition_tick_witness:
  "cameraTween demo_moving = Some demo_tween \<and> 0 < duration demo_tween \<and>
   startTime demo_tween \<le> 2000 \<and>
   tween_t demo_tween 2000 = 1 / 2 \<and>
   camera_position (update 2000 demo_moving) = Some (5, 2, -1) \<and>
   cameraTween (update 2000 demo_moving) = Some demo_tween \<and>
   camera_position (update 3000 demo_moving) = Some (10, 4, -2) \<and>
   cameraTween (update 3000 demo_moving) = None \<and>
   cameraTween (update 3500 demo_moving) = None"
proof -
  have a: "cameraTween demo_moving = Some demo_tween" by (simp add: demo_moving_def)
  have d: "0 < duration demo_tween" by (simp add: demo_tween_def)
  have v: "startTime demo_tween = 1000" "duration demo_tween = 2000"
    "tw_from demo_tween = (0, 0, 0)" "tw_to demo_tween = (10, 4, -2)"
    by (simp_all add: demo_tween_def)
  have n: "startTime demo_tween \<le> 2000" "startTime demo_tween \<le> 3000"
    "startTime demo_tween \<le> 3500"
    by (simp_all add: v)
  from transition_tick [OF a d n(1)] transition_tick [OF a d n(2)]
    transition_tick [OF a d n(3)] a d
  show ?thesis
    by (simp add: demo_camera v lerpVectors_def)
qed

lemma sendResponse_failure:
  "sendResponse (Some r) (failure e) b =
     (if ws b = Some OPEN \<and> r \<noteq> []
      then b\<lparr>sent := sent b @ [JObj [(''requestId'', JStr r), (''success'', JBool False), (''error'', JStr e)]]\<rparr>
      else b)"
  by (simp add: sendResponse_def response_def failure_def)

lemma dispatch_unknown:
  assumes "action command \<notin> set dispatch_table"
  shows "dispatch env command b = Returns (failure (''Unknown action: '' @ action command)) b"
  using assms by (simp add: dispatch_def dispatch_table_def Let_def)

text \<open>
  C5 (as the code has it). For a command whose action is not a case label of the switch,
  the result is the failure \<open>{success: false, error: 'Unknown action: ...'}\<close>, the state is
  untouched, and the response with the same \<open>requestId\<close> is transmitted when the
  identifier is a non-empty string and the socket is open; without identifier, with an
  empty one or without an open socket nothing is transmitted. For every command, an
  exception of the handler becomes the result \<open>{success: false, error: message}\<close>, which
  is passed to \<open>sendResponse\<close> like any returned result.
\<close>

theorem unknown_action_and_exceptions:
  "(action command \<notin> set dispatch_table \<longrightarrow>
      dispatch env command b = Returns (failure (''Unknown action: '' @ action command)) b \<and>
      handleCommand env command b =
        sendResponse (requestId command) (failure (''Unknown action: '' @ action command)) b \<and>
      (\<forall>r. requestId command = Some r \<and> r \<noteq> [] \<and> ws b = Some OPEN \<longrightarrow>
         handleCommand env command b =
           b\<lparr>sent := sent b @ [JObj [(''requestId'', JStr r), (''success'', JBool False),
                (''error'', JStr (''Unknown action: '' @ action command))]]\<rparr>) \<and>
      (requestId command = None \<or> requestId command = Some [] \<or> ws b \<noteq> Some OPEN \<longrightarrow>
         handleCommand env command b = b)) \<and>
   (\<forall>e b1. dispatch env command b = Throws e b1 \<longrightarrow>
      handleCommand env command b = sendResponse (requestId command) (failure e) b1 \<and>
      (\<forall>r. requestId command = Some r \<and> r \<noteq> [] \<and> ws b1 = Some OPEN \<longrightarrow>
         sent (handleCommand env command b) =
           sent b1 @ [JObj [(''requestId'', JStr r), (''success'', JBool False), (''error'', JStr e)]])) \<and>
   (\<forall>result b1. dispatch env command b = Returns result b1 \<longrightarrow>
      handleCommand env command b = sendResponse (requestId command) result b1)"
proof -
  have 1: "handleCommand env command b = sendResponse (requestId command) (failure e) b1"
    if "dispatch env command b = Throws e b1" for e b1
    using that by (simp add: handleCommand_def)
  have 2: "handleCommand env command b = sendResponse (requestId command) result b1"
    if "dispatch env command b = Returns result b1" for result b1
    using that by (simp add: handleCommand_def)
  have 3: "sent (sendResponse (requestId command) (failure e) b1) =
           sent b1 @ [JObj [(''requestId'', JStr r), (''success'', JBool False), (''error'', JStr e)]]"
    if "requestId command = Some r \<and> r \<noteq> [] \<and> ws b1 = Some OPEN" for r e b1
    using that by (simp add: sendResponse_failure)
  have 4: "sendResponse (requestId command) (failure e) b =
           b\<lparr>sent := sent b @ [JObj [(''requestId'', JStr r), (''success'', JBool False), (''error'', JStr e)]]\<rparr>"
    if "requestId command = Some r \<and> r \<noteq> [] \<and> ws b = Some OPEN" for r e
    using that by (simp add: sendResponse_failure)
  have 5: "sendResponse (requestId command) (failure e) b = b"
    if "requestId command = None \<or> requestId command = Some [] \<or> ws b \<noteq> Some OPEN" for e
    using that by (auto simp: sendResponse_def split: option.splits)
  show ?thesis
    using 1 2 3 4 5 dispatch_unknown [of command env b] by simp
qed

theorem unknown_action_and_exceptions_witness:
  "action cmd_fly \<notin> set dispatch_table \<and>
   handleCommand demo_env cmd_fly demo =
     demo\<lparr>sent := [JObj [(''requestId'', JStr ''req_7''), (''success'', JBool False),
                         (''error'', JStr ''Unknown action: fly'')]]\<rparr> \<and>
   dispatch demo_env (cmd_fly\<lparr>action := ''lookAt''\<rparr>) demo = Throws ''TypeError'' demo \<and>
   sent (handleCommand demo_env (cmd_fly\<lparr>action := ''lookAt''\<rparr>) demo) =
     [JObj [(''requestId'', JStr ''req_7''), (''success'', JBool False), (''error'', JStr ''TypeError'')]]"
proof -
  have a: "action cmd_fly \<notin> set dispatch_table"
    by (simp add: cmd_fly_def dispatch_table_def)
  have t: "dispatch demo_env (cmd_fly\<lparr>action := ''lookAt''\<rparr>) demo = Throws ''TypeError'' demo"
    by (simp add: dispatch_def cmd_fly_def demo_env_def Let_def)
  have w: "ws demo = Some OPEN" "sent demo = []" by (simp_all add: demo_def)
  from unknown_action_and_exceptions [of cmd_fly demo_env demo] a
  have "\<forall>r. requestId cmd_fly = Some r \<and> r \<noteq> [] \<and> ws demo = Some OPEN \<longrightarrow>
         handleCommand demo_env cmd_fly demo =
           demo\<lparr>sent := sent demo @ [JObj [(''requestId'', JStr r), (''success'', JBool False),
                (''error'', JStr (''Unknown action: '' @ action cmd_fly))]]\<rparr>"
    by blast
  then have 1: "handleCommand demo_env cmd_fly demo =
     demo\<lparr>sent := [JObj [(''requestId'', JStr ''req_7''), (''success'', JBool False),
                         (''error'', JStr ''Unknown action: fly'')]]\<rparr>"
    by (simp add: cmd_fly_def w)
  from unknown_action_and_exceptions [of "cmd_fly\<lparr>action := ''lookAt''\<rparr>" demo_env demo] t
  have "\<forall>r. requestId (cmd_fly\<lparr>action := ''lookAt''\<rparr>) = Some r \<and> r \<noteq> [] \<and> ws demo = Some OPEN \<longrightarrow>
         sent (handleCommand demo_env (cmd_fly\<lparr>action := ''lookAt''\<rparr>) demo) =
           sent demo @ [JObj [(''requestId'', JStr r), (''success'', JBool False), (''error'', JStr ''TypeError'')]]"
    by blast
  then have 2: "sent (handleCommand demo_env (cmd_fly\<lparr>action := ''lookAt''\<rparr>) demo) =
     [JObj [(''requestId'', JStr ''req_7''), (''success'', JBool False), (''error'', JStr ''TypeError'')]]"
    by (simp add: cmd_fly_def w)
  from a 1 t 2 show ?thesis by blast
qed

text \<open>
  A command that carries a \<open>requestId\<close> gets no response when the socket is not open,
  or when the identifier is the empty string.
\<close>

theorem no_response_without_open_socket_counterexample:
  "action cmd_fly \<notin> set dispatch_table \<and> requestId cmd_fly = Some ''req_7'' \<and>
   sent (handleCommand demo_env cmd_fly (demo\<lparr>ws := Some CLOSING\<rparr>)) = [] \<and>
   sent (handleCommand demo_env cmd_fly (demo\<lparr>ws := None\<rparr>)) = [] \<and>
   requestId (cmd_fly\<lparr>requestId := Some ''''\<rparr>) = Some '''' \<and>
   sent (handleCommand demo_env (cmd_fly\<lparr>requestId := Some ''''\<rparr>) demo) = []"
  by (simp add: cmd_fly_def dispatch_table_def handleCommand_def dispatch_def Let_def
      sendResponse_def demo_def)

lemma nid_attach [simp]: "nid (attach p c t) = nid t"
  by (cases t) simp

lemma nid_detach [simp]: "nid (detach i t) = nid t"
  by (cases t) simp

lemma obj_attach [simp]: "obj (attach p c t) = obj t"
  by (cases t) simp

lemma obj_detach [simp]: "obj (detach i t) = obj t"
  by (cases t) simp

lemma root_in_nodes [simp]: "t \<in> set (nodes t)"
  by (cases t) simp

lemma nodes_eq: "nodes t = t # concat (map nodes (children t))"
  by (cases t) simp


lemma ids_Node: "ids (Node j ob cs) = insert j (\<Union> (ids ` set cs))"
  by (auto simp: ids_def)

lemma find_append_option:
  "find P (xs @ ys) = (case find P xs of Some x \<Rightarrow> Some x | None \<Rightarrow> find P ys)"
  by (induction xs) simp_all

lemma find_None_iff_all: "find P xs = None \<longleftrightarrow> (\<forall>x \<in> set xs. \<not> P x)"
  by (induction xs) simp_all

lemma find_concat_None:
  "(\<And>x. x \<in> set xss \<Longrightarrow> find P x = None) \<Longrightarrow> find P (concat xss) = None"
  by (induction xss) (simp_all add: find_append_option)





lemma attach_absent: "p \<notin> ids t \<Longrightarrow> attach p c t = t"
proof (induction t rule: nodes.induct)
  case (1 j ob cs)
  then have "map (attach p c) cs = cs"
    by (auto simp: ids_Node intro: map_idI)
  with 1(2) show ?case by (simp add: ids_Node)
qed

lemma world_roots: "world b = concat (map nodes (roots b))"
  by (simp add: world_def roots_def)

lemma in_world_iff: "n \<in> set (world b) \<longleftrightarrow> (\<exists>t \<in> set (roots b). n \<in> set (nodes t))"
  by (auto simp: world_roots)





lemma find_Some_in: "find P xs = Some x \<Longrightarrow> x \<in> set xs"
  by (induction xs) (auto split: if_splits)


lemma nid_make_clone [simp]: "nid (make_clone k source newName offset) = k"
  by (cases source) (simp add: make_clone_def)

lemma name_make_clone [simp]: "name (obj (make_clone k source newName offset)) = newName"
  by (cases source) (simp add: make_clone_def)

lemma position_make_clone [simp]:
  "position (obj (make_clone k source newName offset)) =
     (case offset of None \<Rightarrow> position (obj source) | Some d \<Rightarrow> vadd (position (obj source)) d)"
  by (cases source) (simp add: make_clone_def split: option.splits)

lemma world_fields [simp]:
  "world (b\<lparr>next_id := k\<rparr>) = world b"
  "world (b\<lparr>objects := os\<rparr>) = world b"
  "world (b\<lparr>rotatingObjects := rs\<rparr>) = world b"
  "roots (b\<lparr>next_id := k\<rparr>) = roots b"
  "roots (b\<lparr>objects := os\<rparr>) = roots b"
  by (simp_all add: world_def roots_def)

lemma parent_of_fields [simp]:
  "parent_of (b\<lparr>next_id := k\<rparr>) = parent_of b"
  "parent_of (b\<lparr>objects := os\<rparr>) = parent_of b"
  "lookup (b\<lparr>next_id := k\<rparr>) = lookup b"
  "lookup (b\<lparr>objects := os\<rparr>) = lookup b"
  by (simp_all add: parent_of_def lookup_def fun_eq_iff)

lemma world_add_child: "world (add_child p c b) = concat (map nodes (map (attach p c) (roots b)))"
  by (simp add: world_def add_child_def roots_def)

lemma duplicateObject_found:
  "findObject b sourceName = Some source \<Longrightarrow>
   duplicateObject sourceName newName offset b = (success_id newName, duplicated source newName offset b)"
  by (simp add: duplicateObject_def duplicated_def Let_def add_child_def split: option.splits)


lemma removeObject_found:
  "findObject b nm = Some n \<Longrightarrow>
   removeObject nm b =
     (success, (removeFromParent n b)\<lparr>objects := AList.delete nm (objects (removeFromParent n b)),
        rotatingObjects := AList.delete nm (rotatingObjects (removeFromParent n b))\<rparr>)"
  by (simp add: removeObject_def Let_def)

lemma removeFromParent_fields [simp]:
  "objects (removeFromParent n b) = objects b"
  "rotatingObjects (removeFromParent n b) = rotatingObjects b"
  "next_id (removeFromParent n b) = next_id b"
  by (simp_all add: removeFromParent_def split: option.splits)





lemma ids_detach: "nid t \<noteq> i \<Longrightarrow> i \<notin> ids (detach i t)"
proof (induction t rule: nodes.induct)
  case (1 j ob cs)
  have "i \<notin> ids (detach i c)" if "c \<in> set cs" "nid c \<noteq> i" for c
    using 1 that by simp
  with 1(2) show ?case
    by (auto simp: ids_Node)
qed

text \<open>The nodes that remain after a detachment are nodes from before, other than the one
  taken out, with their properties.\<close>

lemma nodes_detach:
  assumes "m' \<in> set (nodes (detach i t))" "nid t \<noteq> i"
  shows "\<exists>m \<in> set (nodes t). nid m = nid m' \<and> obj m = obj m' \<and> nid m \<noteq> i"
  using assms
proof (induction t rule: nodes.induct)
  case (1 j ob cs)
  from 1(2) have "m' = detach i (Node j ob cs) \<or>
      (\<exists>c \<in> set cs. nid c \<noteq> i \<and> m' \<in> set (nodes (detach i c)))"
    by auto
  then show ?case
  proof
    assume "m' = detach i (Node j ob cs)"
    with 1(3) show ?thesis by (intro bexI [of _ "Node j ob cs"]) simp_all
  next
    assume "\<exists>c \<in> set cs. nid c \<noteq> i \<and> m' \<in> set (nodes (detach i c))"
    then obtain c where c: "c \<in> set cs" "nid c \<noteq> i" "m' \<in> set (nodes (detach i c))" by auto
    from 1(1) [OF c(1) c(3) c(2)] obtain m where
      "m \<in> set (nodes c)" "nid m = nid m'" "obj m = obj m'" "nid m \<noteq> i" by auto
    with c(1) show ?thesis by auto
  qed
qed

lemma child_of_some_node:
  assumes "i \<in> ids t" "i \<noteq> nid t"
  shows "\<exists>m \<in> set (nodes t). i \<in> set (map nid (children m))"
  using assms
proof (induction t rule: nodes.induct)
  case (1 j ob cs)
  from 1(2,3) obtain c where c: "c \<in> set cs" "i \<in> ids c" by (auto simp: ids_Node)
  show ?case
  proof (cases "i = nid c")
    case True
    with c(1) show ?thesis by (intro bexI [of _ "Node j ob cs"]) auto
  next
    case False
    from 1(1) [OF c(1) c(2) False] c(1) show ?thesis by auto
  qed
qed

lemma no_parent_not_in_scene:
  assumes "parent_of b i = None" "i \<noteq> nid (scene b)"
  shows "i \<notin> ids (scene b)"
proof
  assume "i \<in> ids (scene b)"
  from child_of_some_node [OF this assms(2)] obtain m where
    "m \<in> set (nodes (scene b))" "i \<in> set (map nid (children m))" by auto
  then have "\<exists>m \<in> set (world b). i \<in> set (map nid (children m))"
    by (auto simp: world_def)
  with assms(1) show False
    by (simp add: parent_of_def find_None_iff_all)
qed

lemma split_on_absent: "c \<notin> set s \<Longrightarrow> split_on c s = [s]"
  by (induction s) auto

lemma scene_removeFromParent:
  "scene (removeFromParent n b) = (if parent_of b (nid n) = None then scene b else detach (nid n) (scene b))"
  by (simp add: removeFromParent_def split: option.splits)

lemma removed_not_in_scene:
  assumes "nid n \<noteq> nid (scene b)"
  shows "nid n \<notin> ids (scene (removeFromParent n b))"
  using assms no_parent_not_in_scene [of b "nid n"] ids_detach [of "scene b" "nid n"]
  by (auto simp: scene_removeFromParent)

text \<open>What is left in the scene after the removal comes from the scene before.\<close>

lemma scene_after_removal:
  assumes "m' \<in> set (nodes (scene (removeFromParent n b)))" "nid n \<noteq> nid (scene b)"
  shows "\<exists>m \<in> set (nodes (scene b)). nid m = nid m' \<and> obj m = obj m' \<and> nid m \<noteq> nid n"
proof (cases "parent_of b (nid n)")
  case None
  with assms(1) have m: "m' \<in> set (nodes (scene b))" by (simp add: scene_removeFromParent)
  from no_parent_not_in_scene [OF None assms(2)] m have "nid m' \<noteq> nid n"
    by (metis ids_def imageI)
  with m show ?thesis by auto
next
  case (Some p)
  with assms(1) have "m' \<in> set (nodes (detach (nid n) (scene b)))"
    by (simp add: scene_removeFromParent)
  from nodes_detach [OF this] assms(2) show ?thesis by auto
qed

lemma children_after_removal:
  assumes "c' \<in> set (children (scene (removeFromParent n b)))" "nid n \<noteq> nid (scene b)"
  shows "\<exists>c \<in> set (children (scene b)). nid c = nid c' \<and> obj c = obj c' \<and> nid c \<noteq> nid n"
proof (cases "parent_of b (nid n)")
  case None
  with assms(1) have m: "c' \<in> set (children (scene b))" by (simp add: scene_removeFromParent)
  then have "c' \<in> set (nodes (scene b))"
    by (subst nodes_eq) (auto intro: root_in_nodes)
  with no_parent_not_in_scene [OF None assms(2)] have "nid c' \<noteq> nid n"
    by (metis ids_def imageI)
  with m show ?thesis by auto
next
  case (Some p)
  with assms(1) have "c' \<in> set (children (detach (nid n) (scene b)))"
    by (simp add: scene_removeFromParent)
  then show ?thesis
    by (cases "scene b") auto
qed

text \<open>
  C9 (as the code has it). When the object registered under a name is removed by that
  name, the removal succeeds, the node is no longer part of the scene graph, and the entry
  of the name in the name index and in the table of rotating objects is deleted. A later
  lookup by that name finds nothing, and a later duplication with that name as source fails
  with the not-found error, provided nothing else answers to the name: no other node of
  the scene graph has it as its name, no other child of the scene root has it as its type
  tag, and it contains no \<open>/\<close>. The state is one that satisfies \<open>bridge_inv\<close>, and
  \<open>objects_get b nm = Some n\<close> says that \<open>n\<close> is the object registered under \<open>nm\<close>.
\<close>

theorem remove_registered_object:
  assumes "bridge_inv b" "objects_get b nm = Some n"
  shows "let b' = snd (removeObject nm b)
         in fst (removeObject nm b) = success \<and>
            scene b' = (if parent_of b (nid n) = None then scene b else detach (nid n) (scene b)) \<and>
            nid n \<notin> ids (scene b') \<and>
            map_of (objects b') nm = None \<and>
            map_of (rotatingObjects b') nm = None \<and>
            ((\<forall>m \<in> set (nodes (scene b)). name (obj m) = nm \<longrightarrow> nid m = nid n) \<and>
             (\<forall>c \<in> set (children (scene b)). otype (obj c) = nm \<longrightarrow> nid c = nid n) \<and>
             CHR ''/'' \<notin> set nm \<longrightarrow>
               findObject b' nm = None \<and>
               duplicateObject nm newName offset b' = (failure (''Source object not found: '' @ nm), b'))"
proof -
  from assms(2) obtain i where reg: "map_of (objects b) nm = Some i" "lookup b i = Some n"
    by (auto simp: objects_get_def split: option.splits)
  from reg(2) have ni: "nid n = i"
    by (auto simp: lookup_def dest: find_Some_P)
  from reg(1) have "(nm, i) \<in> set (objects b)"
    by (rule map_of_SomeD)
  with assms(1) have root: "i \<noteq> nid (scene b)"
    by (auto simp: bridge_inv_def)
  from assms(2) have f: "findObject b nm = Some n"
    by (simp add: findObject_def)
  let ?r = "removeFromParent n b"
  let ?b' = "?r\<lparr>objects := AList.delete nm (objects ?r),
        rotatingObjects := AList.delete nm (rotatingObjects ?r)\<rparr>"
  have r: "removeObject nm b = (success, ?b')"
    by (rule removeObject_found [OF f])
  have s: "scene ?b' = (if parent_of b (nid n) = None then scene b else detach (nid n) (scene b))"
    by (simp add: scene_removeFromParent)
  from root ni have ns: "nid n \<noteq> nid (scene b)" by simp
  have g: "nid n \<notin> ids (scene ?b')"
    using removed_not_in_scene [OF ns] by simp
  have o: "map_of (objects ?b') nm = None" "map_of (rotatingObjects ?b') nm = None"
    by (simp_all add: delete_conv')
  have last: "findObject ?b' nm = None \<and>
       duplicateObject nm newName offset ?b' = (failure (''Source object not found: '' @ nm), ?b')"
    if u: "\<forall>m \<in> set (nodes (scene b)). name (obj m) = nm \<longrightarrow> nid m = nid n"
      and ty: "\<forall>c \<in> set (children (scene b)). otype (obj c) = nm \<longrightarrow> nid c = nid n"
      and sl: "CHR ''/'' \<notin> set nm"
  proof -
    have "name (obj m') \<noteq> nm" if "m' \<in> set (nodes (scene ?r))" for m'
    proof -
      from scene_after_removal [OF that ns] obtain m where
        "m \<in> set (nodes (scene b))" "obj m = obj m'" "nid m \<noteq> nid n" by auto
      with u ni show ?thesis by auto
    qed
    then have byname: "getObjectByName (scene ?b') nm = None"
      by (simp add: getObjectByName_def find_None_iff_all)
    have "\<not> (name (obj c') = nm \<or> otype (obj c') = nm)" if "c' \<in> set (children (scene ?r))" for c'
    proof -
      from children_after_removal [OF that ns] obtain c where
        c: "c \<in> set (children (scene b))" "obj c = obj c'" "nid c \<noteq> nid n" by auto
      from c(1) have "c \<in> set (nodes (scene b))"
        by (subst nodes_eq) (auto intro: root_in_nodes)
      with u ty c ni show ?thesis by auto
    qed
    then have "find (\<lambda>n. name (obj n) = nm \<or> otype (obj n) = nm) (children (scene ?b')) = None"
      by (simp add: find_None_iff_all)
    then have bypath: "walk (scene ?b') (split_on CHR ''/'' nm) = None"
      by (simp add: split_on_absent [OF sl])
    have "objects_get ?b' nm = None"
      by (simp add: objects_get_def delete_conv')
    with byname bypath have "findObject ?b' nm = None"
      by (simp add: findObject_def)
    then show ?thesis
      by (simp add: duplicateObject_def)
  qed
  show ?thesis
    unfolding Let_def r fst_conv snd_conv
    using s g o last by blast
qed

lemma demo_copy_eq:
  "demo_copy = \<lparr>ws = Some OPEN,
     scene = Node 0 (plain '''' ''Scene'' (0, 0, 0))
       [Node 1 (camera_obj ''cam'' (0, 0, 0)) [],
        Node 2 (plain ''group'' ''Group'' (0, 0, 0))
          [Node 3 (plain ''box'' ''Mesh'' (1, 2, 3)) [], Node 4 (plain ''copy'' ''Mesh'' (4, 2, 3)) []]],
     detached = [], next_id = 5, rotatingObjects = [(''copy'', 1)], objects = [(''copy'', 4)],
     cameraTween = None, cameraLookAt = None,
     sent = [JObj [(''requestId'', JStr ''req_1''), (''success'', JBool True), (''id'', JStr ''copy'')]]\<rparr>"
  by (simp add: demo_copy_def handleCommand_def dispatch_def cmd_spin_def cmd_duplicate_def Let_def
      field_def returns_def duplicateObject_def findObject_def objects_get_def getObjectByName_def
      parent_of_def world_def add_child_def make_clone_def vadd_def plain_def camera_obj_def
      demo_def demo_scene_def sendResponse_def response_def success_id_def success_def)

lemmas registry_eval =
  removeObject_def duplicateObject_def findObject_def objects_get_def getObjectByName_def
  lookup_def parent_of_def world_def removeFromParent_def add_child_def make_clone_def vadd_def
  plain_def camera_obj_def Let_def

theorem remove_registered_object_witness:
  "objects_get demo_copy ''copy'' = Some (Node 4 (plain ''copy'' ''Mesh'' (4, 2, 3)) []) \<and>
   fst (removeObject ''copy'' demo_copy) = success \<and>
   4 \<notin> ids (scene (snd (removeObject ''copy'' demo_copy))) \<and>
   map_of (objects (snd (removeObject ''copy'' demo_copy))) ''copy'' = None \<and>
   map_of (rotatingObjects (snd (removeObject ''copy'' demo_copy))) ''copy'' = None \<and>
   findObject (snd (removeObject ''copy'' demo_copy)) ''copy'' = None \<and>
   fst (duplicateObject ''copy'' ''again'' None (snd (removeObject ''copy'' demo_copy))) =
     failure ''Source object not found: copy''"
proof -
  have a: "bridge_inv demo_copy"
    by (simp add: bridge_inv_def demo_copy_eq world_def)
  have l: "objects_get demo_copy ''copy'' = Some (Node 4 (plain ''copy'' ''Mesh'' (4, 2, 3)) [])"
    by (simp add: demo_copy_eq objects_get_def lookup_def world_def)
  have u: "\<forall>m \<in> set (nodes (scene demo_copy)). name (obj m) = ''copy'' \<longrightarrow>
      nid m = nid (Node 4 (plain ''copy'' ''Mesh'' (4, 2, 3)) [])"
    by (simp add: demo_copy_eq plain_def camera_obj_def)
  have t: "\<forall>c \<in> set (children (scene demo_copy)). otype (obj c) = ''copy'' \<longrightarrow>
      nid c = nid (Node 4 (plain ''copy'' ''Mesh'' (4, 2, 3)) [])"
    by (simp add: demo_copy_eq plain_def camera_obj_def)
  have s: "CHR ''/'' \<notin> set ''copy''" by simp
  from remove_registered_object [OF a l, of "''again''" None]
  have "fst (removeObject ''copy'' demo_copy) = success \<and>
        nid (Node 4 (plain ''copy'' ''Mesh'' (4, 2, 3)) []) \<notin> ids (scene (snd (removeObject ''copy'' demo_copy))) \<and>
        map_of (objects (snd (removeObject ''copy'' demo_copy))) ''copy'' = None \<and>
        map_of (rotatingObjects (snd (removeObject ''copy'' demo_copy))) ''copy'' = None \<and>
        findObject (snd (removeObject ''copy'' demo_copy)) ''copy'' = None \<and>
        duplicateObject ''copy'' ''again'' None (snd (removeObject ''copy'' demo_copy)) =
          (failure (''Source object not found: '' @ ''copy''), snd (removeObject ''copy'' demo_copy))"
    unfolding Let_def using u t s by blast
  with l show ?thesis by simp
qed

lemma demo_two_copies_eq:
  "demo_two_copies = \<lparr>ws = Some OPEN,
     scene = Node 0 (plain '''' ''Scene'' (0, 0, 0))
       [Node 1 (camera_obj ''cam'' (0, 0, 0)) [],
        Node 2 (plain ''group'' ''Group'' (0, 0, 0))
          [Node 3 (plain ''box'' ''Mesh'' (1, 2, 3)) [], Node 4 (plain ''copy'' ''Mesh'' (4, 2, 3)) [],
           Node 5 (plain ''copy'' ''Mesh'' (4, 2, 3)) []]],
     detached = [], next_id = 6, rotatingObjects = [(''copy'', 1)], objects = [(''copy'', 5)],
     cameraTween = None, cameraLookAt = None,
     sent = [JObj [(''requestId'', JStr ''req_1''), (''success'', JBool True), (''id'', JStr ''copy'')]]\<rparr>"
  by (simp add: demo_two_copies_def demo_copy_eq handleCommand_def dispatch_def cmd_duplicate_def
      field_def returns_def sendResponse_def registry_eval)

text \<open>
  Two objects have been given the same name by duplication, and the name index holds the
  later one. Removing by that name succeeds and takes the registered object out, but the
  lookup by the same name then finds the other object, and a duplication with that name as
  source succeeds.
\<close>

theorem lookup_after_removal_counterexample:
  "map_of (objects demo_two_copies) ''copy'' = Some 5 \<and>
   fst (removeObject ''copy'' demo_two_copies) = success \<and>
   map_of (objects (snd (removeObject ''copy'' demo_two_copies))) ''copy'' = None \<and>
   findObject (snd (removeObject ''copy'' demo_two_copies)) ''copy'' =
     Some (Node 4 (plain ''copy'' ''Mesh'' (4, 2, 3)) []) \<and>
   fst (duplicateObject ''copy'' ''again'' None (snd (removeObject ''copy'' demo_two_copies))) =
     success_id ''again''"
  by (simp add: demo_two_copies_eq registry_eval)

subsection \<open>The invariant is kept by the handlers\<close>

lemma map_nid_modify: "map nid (nodes (modify i f t)) = map nid (nodes t)"
  by (simp add: nodes_modify comp_def)

lemma world_modify_world: "map nid (world (modify_world i f b)) = map nid (world b)"
proof -
  have "map nid (concat (map nodes (map (modify i f) ts))) = map nid (concat (map nodes ts))" for ts
    by (induction ts) (simp_all add: map_nid_modify)
  from this [of "scene b # detached b"] show ?thesis
    by (simp add: world_def modify_world_def)
qed

lemma inv_fields [simp]:
  "bridge_inv (b\<lparr>cameraTween := w\<rparr>) = bridge_inv b"
  "bridge_inv (b\<lparr>cameraLookAt := v\<rparr>) = bridge_inv b"
  "bridge_inv (b\<lparr>rotatingObjects := rs\<rparr>) = bridge_inv b"
  "bridge_inv (b\<lparr>sent := fs\<rparr>) = bridge_inv b"
  by (simp_all add: bridge_inv_def world_def)

lemma inv_modify_world [simp]: "bridge_inv (modify_world i f b) = bridge_inv b"
proof -
  have e: "nid ` set (world (modify_world i f b)) = nid ` set (world b)"
    using world_modify_world [of i f b] by (metis set_map)
  have "(\<forall>n \<in> set (world (modify_world i f b)). nid n < k) = (\<forall>n \<in> set (world b). nid n < k)" for k
  proof -
    have "(\<forall>n \<in> set (world (modify_world i f b)). nid n < k) =
        (\<forall>j \<in> nid ` set (world (modify_world i f b)). j < k)"
      by blast
    also have "\<dots> = (\<forall>j \<in> nid ` set (world b). j < k)"
      by (simp only: e)
    also have "\<dots> = (\<forall>n \<in> set (world b). nid n < k)"
      by blast
    finally show ?thesis .
  qed
  then show ?thesis
    by (simp add: bridge_inv_def) (simp add: modify_world_def)
qed

lemma inv_moveObject: "bridge_inv b \<Longrightarrow> bridge_inv (snd (moveObject nm p b))"
  by (simp add: moveObject_def split: option.splits)

lemma inv_setTransform: "bridge_inv b \<Longrightarrow> bridge_inv (snd (setTransform nm prop v b))"
  by (simp add: setTransform_def split: option.splits transform_prop.splits)

lemma inv_setVisibility: "bridge_inv b \<Longrightarrow> bridge_inv (snd (setVisibility nm v b))"
  by (simp add: setVisibility_def split: option.splits)

lemma inv_update: "bridge_inv b \<Longrightarrow> bridge_inv (update now b)"
proof (cases "cameraTween b")
  case None
  then show "bridge_inv b \<Longrightarrow> ?thesis" by (simp add: update_def)
next
  case (Some tw)
  then show "bridge_inv b \<Longrightarrow> ?thesis"
    by (cases "getActiveCamera b"; cases "toLookAt tw") (simp_all add: update_def Let_def)
qed

lemma inv_moveCamera: "bridge_inv b \<Longrightarrow> bridge_inv (snd (moveCamera env command camera p l b))"
  by (cases l) (simp_all add: moveCamera_def Let_def)

lemma subtree_nodes: "m \<in> set (nodes t) \<Longrightarrow> set (nodes m) \<subseteq> set (nodes t)"
proof (induction t rule: nodes.induct)
  case (1 j ob cs)
  from 1(2) have "m = Node j ob cs \<or> (\<exists>c \<in> set cs. m \<in> set (nodes c))" by auto
  then show ?case
  proof
    assume "m = Node j ob cs"
    then show ?thesis by simp
  next
    assume "\<exists>c \<in> set cs. m \<in> set (nodes c)"
    then obtain c where c: "c \<in> set cs" "m \<in> set (nodes c)" by auto
    from 1(1) [OF c] c(1) show ?thesis by auto
  qed
qed

lemma subtree_world: "n \<in> set (world b) \<Longrightarrow> set (nodes n) \<subseteq> set (world b)"
  using subtree_nodes by (fastforce simp: in_world_iff)

lemma ids_detach_subset: "ids (detach i t) \<subseteq> ids t"
proof (induction t rule: nodes.induct)
  case (1 j ob cs)
  have "ids (detach i c) \<subseteq> ids c" if "c \<in> set cs" "nid c \<noteq> i" for c
    using 1 that by simp
  then show ?case
    by (fastforce simp: ids_Node)
qed

lemma walk_in_nodes: "walk t parts = Some m \<Longrightarrow> m \<in> set (nodes t)"
proof (induction parts arbitrary: t)
  case Nil
  then show ?case by simp
next
  case (Cons part parts)
  then obtain c where c: "c \<in> set (children t)" "walk c parts = Some m"
    by (auto split: option.splits dest: find_Some_in)
  from Cons.IH [OF c(2)] c(1) show ?case
    by (subst nodes_eq) auto
qed

lemma findObject_in_world: "findObject b nm = Some n \<Longrightarrow> n \<in> set (world b)"
  by (auto simp: findObject_def objects_get_def lookup_def getObjectByName_def world_def
      split: option.splits if_splits dest: find_Some_in walk_in_nodes)

lemma world_removeFromParent:
  assumes "n \<in> set (world b)" "m \<in> set (world (removeFromParent n b))"
  shows "nid m \<in> nid ` set (world b)"
proof (cases "parent_of b (nid n)")
  case None
  with assms(2) show ?thesis by (simp add: removeFromParent_def)
next
  case (Some p)
  have d: "nid m \<in> nid ` set (nodes t)" if "m \<in> set (nodes (detach (nid n) t))" for t
    using ids_detach_subset [of "nid n" t] that by (auto simp: ids_def)
  from assms(2) Some consider
      "m \<in> set (nodes (detach (nid n) (scene b)))"
    | t where "t \<in> set (detached b)" "m \<in> set (nodes (detach (nid n) t))"
    | "m \<in> set (nodes n)"
    by (auto simp: removeFromParent_def world_def)
  then show ?thesis
  proof cases
    case 1
    from d [OF 1] show ?thesis by (auto simp: world_def)
  next
    case 2
    from d [OF 2(2)] 2(1) show ?thesis by (auto simp: world_def)
  next
    case 3
    with subtree_world [OF assms(1)] show ?thesis by blast
  qed
qed

lemma scene_root_removeFromParent [simp]: "nid (scene (removeFromParent n b)) = nid (scene b)"
  by (simp add: removeFromParent_def split: option.splits)

lemma inv_removeObject:
  assumes "bridge_inv b" shows "bridge_inv (snd (removeObject nm b))"
proof (cases "findObject b nm")
  case None
  with assms show ?thesis by (simp add: removeObject_def)
next
  case (Some n)
  have 1: "\<forall>m \<in> set (world (removeFromParent n b)). nid m < next_id b"
  proof
    fix m assume "m \<in> set (world (removeFromParent n b))"
    from world_removeFromParent [OF findObject_in_world [OF Some] this]
    obtain m' where "m' \<in> set (world b)" "nid m = nid m'" by auto
    with assms show "nid m < next_id b" by (simp add: bridge_inv_def)
  qed
  have "set (AList.delete nm (objects b)) \<subseteq> set (objects b)"
    by (auto simp: AList.delete_eq)
  with assms have 2: "\<forall>kv \<in> set (AList.delete nm (objects b)). snd kv \<noteq> nid (scene b)"
    by (auto simp: bridge_inv_def)
  from 1 2 show ?thesis
    by (simp add: removeObject_found [OF Some] bridge_inv_def world_def)
qed

lemma ids_attach_subset: "ids (attach p c t) \<subseteq> ids t \<union> ids c"
proof (induction t rule: nodes.induct)
  case (1 j ob cs)
  have "ids (attach p c x) \<subseteq> ids x \<union> ids c" if "x \<in> set cs" for x
    using 1 that by simp
  then show ?case
    by (fastforce simp: ids_Node ids_def [of c])
qed

lemma clone_ids:
  "\<forall>m \<in> set (nodes (clone_from k n)). nid m < k + length (nodes n)"
  "\<forall>m \<in> set (concat (map nodes (clone_list k cs))). nid m < k + length (concat (map nodes cs))"
proof (induction k n and k cs rule: clone_from_clone_list.induct)
  case (1 k j ob cs)
  then show ?case by auto
next
  case (2 k)
  then show ?case by simp
next
  case (3 k c cs)
  then show ?case by (auto simp: add.assoc)
qed

lemma ids_make_clone: "\<forall>m \<in> set (nodes (make_clone k source newName offset)). nid m < k + length (nodes source)"
proof -
  obtain j ob cs where s: "source = Node j ob cs" by (cases source)
  have "\<forall>m \<in> set (concat (map nodes (clone_list (Suc k) cs))). nid m < Suc k + length (concat (map nodes cs))"
    by (rule clone_ids(2))
  then show ?thesis
    by (auto simp: s make_clone_def)
qed

lemma set_update_subset: "set (AList.update k v al) \<subseteq> insert (k, v) (set al)"
  by (induction al) auto

lemma inv_duplicateObject:
  assumes "bridge_inv b" shows "bridge_inv (snd (duplicateObject sourceName newName offset b))"
proof (cases "findObject b sourceName")
  case None
  with assms show ?thesis by (simp add: duplicateObject_def)
next
  case (Some source)
  let ?c = "make_clone (next_id b) source newName offset"
  let ?p = "case parent_of b (nid source) of Some q \<Rightarrow> q | None \<Rightarrow> nid (scene b)"
  let ?b' = "duplicated source newName offset b"
  let ?k = "next_id b + length (nodes source)"
  from assms have old: "\<forall>m \<in> set (world b). nid m < next_id b"
    and reg: "\<forall>kv \<in> set (objects b). snd kv \<noteq> nid (scene b)"
    by (simp_all add: bridge_inv_def)
  have cl: "\<forall>i \<in> ids ?c. i < ?k"
    using ids_make_clone [of "next_id b" source newName offset] by (auto simp: ids_def)
  have t: "\<forall>i \<in> ids (attach ?p ?c t). i < ?k" if "t \<in> set (roots b)" for t
  proof
    fix i assume "i \<in> ids (attach ?p ?c t)"
    with ids_attach_subset [of ?p ?c t] have "i \<in> ids t \<or> i \<in> ids ?c" by auto
    moreover have "j < next_id b" if "j \<in> ids t" for j
      using old that \<open>t \<in> set (roots b)\<close> by (auto simp: ids_def in_world_iff)
    ultimately show "i < ?k" using cl by fastforce
  qed
  have 1: "\<forall>m \<in> set (world ?b'). nid m < next_id ?b'"
  proof
    fix m assume "m \<in> set (world ?b')"
    then obtain t where "t \<in> set (roots b)" "m \<in> set (nodes (attach ?p ?c t))"
      by (auto simp: duplicated_def world_add_child)
    with t [of t] have "nid m < ?k" by (auto simp: ids_def)
    then show "nid m < next_id ?b'" by (simp add: duplicated_def add_child_def)
  qed
  from old have "nid (scene b) < next_id b"
    by (simp add: world_def)
  with reg have "\<forall>kv \<in> insert (newName, next_id b) (set (objects b)). snd kv \<noteq> nid (scene b)"
    by auto
  with set_update_subset [of newName "next_id b" "objects b"]
  have "\<forall>kv \<in> set (AList.update newName (next_id b) (objects b)). snd kv \<noteq> nid (scene b)"
    by blast
  then have 2: "\<forall>kv \<in> set (objects ?b'). snd kv \<noteq> nid (scene ?b')"
    by (simp add: duplicated_def add_child_def)
  from 1 2 show ?thesis
    by (simp add: duplicateObject_found [OF Some] bridge_inv_def)
qed

lemma outcome_state_returns [simp]: "outcome_state (returns rb) = snd rb"
  by (simp add: returns_def)

lemma inv_sendResponse [simp]: "bridge_inv (sendResponse rid data b) = bridge_inv b"
  by (simp add: sendResponse_def split: option.splits)

lemma inv_setCameraPosition:
  assumes "bridge_inv b" "\<And>c b'. bridge_inv b' \<Longrightarrow> bridge_inv (outcome_state (other env c b'))"
  shows "bridge_inv (outcome_state (setCameraPosition env command b))"
proof (cases "getActiveCamera b")
  case None
  with assms(1) show ?thesis by (simp add: setCameraPosition_def)
next
  case (Some camera)
  note o = assms(2) [OF assms(1)]
  show ?thesis
  proof (cases "position_arg (field command ''position'')")
    case Missing
    with Some assms(1) show ?thesis by (simp add: setCameraPosition_def)
  next
    case IllTyped
    with Some o show ?thesis by (simp add: setCameraPosition_def)
  next
    case (Arg p)
    with Some o inv_moveCamera [OF assms(1)] show ?thesis
      by (cases "lookAt_arg (field command ''lookAt'')") (simp_all add: setCameraPosition_def)
  qed
qed

lemma inv_call2:
  assumes "\<And>n p. bridge_inv (snd (h n p))" "bridge_inv (outcome_state d)"
  shows "bridge_inv (outcome_state (case (x, y) of (Some n, Some p) \<Rightarrow> returns (h n p) | _ \<Rightarrow> d))"
  by (cases x; cases y) (simp_all add: assms)

lemma inv_call1:
  assumes "\<And>n. bridge_inv (snd (h n))" "bridge_inv (outcome_state d)"
  shows "bridge_inv (outcome_state (case x of Some n \<Rightarrow> returns (h n) | None \<Rightarrow> d))"
  by (cases x) (simp_all add: assms)

lemma inv_dispatch:
  assumes "bridge_inv b" "\<And>c b'. bridge_inv b' \<Longrightarrow> bridge_inv (outcome_state (other env c b'))"
  shows "bridge_inv (outcome_state (dispatch env command b))"
proof -
  note o = assms(2) [OF assms(1), of command]
  have mv: "bridge_inv (outcome_state
      (case (string_or (field command ''name'') (field command ''path''),
             as_vec3 (field command ''position'')) of
         (Some n, Some p) \<Rightarrow> returns (moveObject n p b) | _ \<Rightarrow> other env command b))"
    by (rule inv_call2) (simp_all add: o inv_moveObject [OF assms(1)])
  have rot: "bridge_inv (outcome_state
      (case (as_string (field command ''name''), as_vec3 (field command ''rotation'')) of
         (Some n, Some v) \<Rightarrow> returns (setTransform n Rotation v b) | _ \<Rightarrow> other env command b))"
    by (rule inv_call2) (simp_all add: o inv_setTransform [OF assms(1)])
  have sc: "bridge_inv (outcome_state
      (case (as_string (field command ''name''), as_vec3 (field command ''scale'')) of
         (Some n, Some v) \<Rightarrow> returns (setTransform n Scale v b) | _ \<Rightarrow> other env command b))"
    by (rule inv_call2) (simp_all add: o inv_setTransform [OF assms(1)])
  have vis: "bridge_inv (outcome_state
      (case (as_string (field command ''name''), as_bool (field command ''visible'')) of
         (Some n, Some v) \<Rightarrow> returns (setVisibility n v b) | _ \<Rightarrow> other env command b))"
    by (rule inv_call2) (simp_all add: o inv_setVisibility [OF assms(1)])
  have cam: "bridge_inv (outcome_state (setCameraPosition env command b))"
    by (rule inv_setCameraPosition [OF assms])
  have rm: "bridge_inv (outcome_state
      (case string_or (field command ''name'') (field command ''id'') of
         Some n \<Rightarrow> returns (removeObject n b) | None \<Rightarrow> other env command b))"
    by (rule inv_call1) (simp_all add: o inv_removeObject [OF assms(1)])
  have dup: "bridge_inv (outcome_state
      (case (as_string (field command ''name''), as_string (field command ''newName'')) of
         (Some n, Some m) \<Rightarrow>
           (if \<not> truthy (field command ''offset'') then returns (duplicateObject n m None b)
            else case as_vec3 (field command ''offset'') of
              Some d \<Rightarrow> returns (duplicateObject n m (Some d) b)
            | None \<Rightarrow> other env command b)
       | _ \<Rightarrow> other env command b))"
    by (cases "as_string (field command ''name'')"; cases "as_string (field command ''newName'')";
        cases "as_vec3 (field command ''offset'')")
      (simp_all add: o inv_duplicateObject [OF assms(1)])
  have start: "bridge_inv (outcome_state
      (case as_string (field command ''id'') of
         Some i \<Rightarrow>
           (if \<not> truthy (field command ''speed'')
            then Returns success (b\<lparr>rotatingObjects := AList.update i 1 (rotatingObjects b)\<rparr>)
            else case as_number (field command ''speed'') of
              Some v \<Rightarrow> Returns success (b\<lparr>rotatingObjects := AList.update i v (rotatingObjects b)\<rparr>)
            | None \<Rightarrow> other env command b)
       | None \<Rightarrow> other env command b))"
    by (cases "as_string (field command ''id'')"; cases "as_number (field command ''speed'')")
      (simp_all add: o assms(1))
  have stop: "bridge_inv (outcome_state
      (case as_string (field command ''id'') of
         Some i \<Rightarrow> Returns success (b\<lparr>rotatingObjects := AList.delete i (rotatingObjects b)\<rparr>)
       | None \<Rightarrow> other env command b))"
    by (cases "as_string (field command ''id'')") (simp_all add: o assms(1))
  show ?thesis
    unfolding dispatch_def Let_def
    using mv rot sc vis cam rm dup start stop o assms(1)
    by (simp only: outcome_state.simps if_split [where P = "\<lambda>x. bridge_inv (outcome_state x)"]) simp
qed

text \<open>
  Every command keeps the invariant, as long as the handlers taken from the environment
  keep it.
\<close>

lemma inv_handleCommand:
  assumes "bridge_inv b" "\<And>c b'. bridge_inv b' \<Longrightarrow> bridge_inv (outcome_state (other env c b'))"
  shows "bridge_inv (handleCommand env command b)"
proof -
  from inv_dispatch [OF assms, of command] show ?thesis
    by (cases "dispatch env command b") (simp_all add: handleCommand_def)
qed

end
